theory Spec2Isabelle
  imports Complex_Main "HOL-Library.Word" "HOL-Library.Multiset"
begin

unbundle bit_operations_syntax

chapter \<open>Domain decomposition and particle management of MP-Gadget (domain.c)\<close>

text \<open>
  A shallow embedding of the routines of \<^verbatim>\<open>domain.c\<close> that manage the particle tables,
  refine and split the top-level tree among ranks, and count what the ranks exchange. C arrays are lists (or functions where the
  allocation is done elsewhere), C structs are records, \<^verbatim>\<open>endrun\<close> is the error value
  \<open>Endrun code\<close>, and \<^verbatim>\<open>double\<close>/\<^verbatim>\<open>float\<close> quantities are idealised as reals
  (exact arithmetic). Counters that the code keeps in \<^verbatim>\<open>int\<close> and never lets go
  negative are natural numbers. The well-formedness hypotheses stated with a theorem
  keep the list accesses that the theorem depends on in range; a theorem that holds
  whatever the remaining reads return carries no hypothesis on them.
\<close>

section \<open>Data model\<close>

text \<open>\<^verbatim>\<open>endrun(where, ...)\<close> terminates the whole process group; it never returns.\<close>

datatype error = Endrun int

text \<open>
  The base particle entry. The declaration of \<^verbatim>\<open>struct particle_data\<close> lives in
  \<^verbatim>\<open>allvars.h\<close>; the fields below are the ones \<^verbatim>\<open>domain.c\<close> reads or writes. The
  generation counter is eight bits wide and the identifier sixty-four.
\<close>

record particle_data =
  Mass :: real
  Type :: nat
  ID :: "64 word"
  Generation :: "8 word"
  TimeBin :: nat
  GravCost :: real
  Key :: nat
  PI :: nat
  OnAnotherDomain :: bool
  WillExport :: bool

text \<open>The black-hole slot: the identifier of its base entry, the link used by the
  collector, and the accretion state (opaque here).\<close>

record bh_particle_data =
  bhID :: "64 word"
  ReverseLink :: int
  Accretion :: real

text \<open>The time-bin counters; whatever else the time-step module keeps (its link
  lists) is the extension part of the record.\<close>

record timebin_data =
  TimeBinCount :: "nat \<Rightarrow> int"
  TimeBinCountSph :: "nat \<Rightarrow> int"

text \<open>The process-wide tables of one rank.\<close>

record ('sph, 'tb) globals =
  P :: "particle_data list"
  NumPart :: nat
  MaxPart :: nat
  N_sph_slots :: nat
  SphP :: "'sph list"
  N_bh_slots :: nat
  BhP :: "bh_particle_data list"
  MaxPartBh :: nat
  TimeBins :: "'tb timebin_data_scheme"
  NumActiveParticle :: nat
  ActiveParticle :: "nat \<Rightarrow> nat"
  Nextnode :: "(nat \<Rightarrow> int) option"
  Father :: "nat \<Rightarrow> int"


section \<open>Forking a particle\<close>

text \<open>
  \<^verbatim>\<open>P[child].ID = (P[parent].ID & 0x00ffffffffffffffL) + (g << 56L)\<close> with
  \<^verbatim>\<open>uint64_t g = P[parent].Generation\<close>.
\<close>

definition child_ID :: "64 word \<Rightarrow> 8 word \<Rightarrow> 64 word" where
  "child_ID pid g = (pid AND 0x00ffffffffffffff) + push_bit 56 (ucast g)"

text \<open>
  \<^verbatim>\<open>domain_fork_particle(parent)\<close>. The routine \<^verbatim>\<open>timebin_add_particle_to_active\<close>
  belongs to the time-step module and is a parameter acting on the time-bin data.
  \<^verbatim>\<open>Nextnode\<close> is \<open>None\<close> when no force tree is allocated.
\<close>

definition domain_fork_particle ::
  "(nat \<Rightarrow> nat \<Rightarrow> nat \<Rightarrow> 'tb timebin_data_scheme \<Rightarrow> 'tb timebin_data_scheme) \<Rightarrow>
   nat \<Rightarrow> ('sph, 'tb) globals \<Rightarrow> error + (nat \<times> ('sph, 'tb) globals)" where
  "domain_fork_particle timebin_add_particle_to_active parent s =
    (if NumPart s \<ge> MaxPart s then Inl (Endrun 8888)
     else
       let child = NumPart s;
           childactive = NumActiveParticle s;
           active = (ActiveParticle s)(childactive := child);
           ps1 = (P s)[parent := (P s ! parent)\<lparr>Generation := Generation (P s ! parent) + 1\<rparr>];
           g = Generation (ps1 ! parent);
           ps2 = ps1[child := ps1 ! parent];
           ps3 = ps2[child := (ps2 ! child)\<lparr>ID := child_ID (ID (ps2 ! parent)) g\<rparr>];
           ps4 = ps3[child := (ps3 ! child)\<lparr>Mass := 0\<rparr>];
           tb = timebin_add_particle_to_active parent child (TimeBin (ps4 ! child)) (TimeBins s);
           s' = s\<lparr>P := ps4, NumPart := child + 1, TimeBins := tb,
                  NumActiveParticle := childactive + 1, ActiveParticle := active\<rparr>
       in case Nextnode s of
            None \<Rightarrow> Inr (child, s')
          | Some nn \<Rightarrow>
              let no = nn parent;
                  nn1 = nn(parent := int child);
                  nn2 = nn1(child := no)
              in Inr (child, s'\<lparr>Nextnode := Some nn2,
                                  Father := (Father s)(child := Father s parent)\<rparr>))"

text \<open>A small table for the examples: a gas particle that has never forked, a dark
  matter particle, and one free entry.\<close>

definition ex_gas :: particle_data where
  "ex_gas = \<lparr>Mass = 2, Type = 0, ID = 0xABCDEF0123456789, Generation = 0, TimeBin = 3,
     GravCost = 1, Key = 17, PI = 0, OnAnotherDomain = False, WillExport = False\<rparr>"

definition ex_dm :: particle_data where
  "ex_dm = \<lparr>Mass = 5, Type = 1, ID = 42, Generation = 0, TimeBin = 2,
     GravCost = 1, Key = 99, PI = 0, OnAnotherDomain = False, WillExport = False\<rparr>"

definition ex_tb :: timebin_data where
  "ex_tb = \<lparr>TimeBinCount = (\<lambda>b. if b = 3 then 1 else if b = 2 then 1 else 0),
     TimeBinCountSph = (\<lambda>b. if b = 3 then 1 else 0)\<rparr>"

definition ex_fork_state :: "(unit, unit) globals" where
  "ex_fork_state = \<lparr>P = [ex_gas, ex_dm, ex_dm], NumPart = 2, MaxPart = 3,
     N_sph_slots = 1, SphP = [(), (), ()], N_bh_slots = 0, BhP = [], MaxPartBh = 0,
     TimeBins = ex_tb, NumActiveParticle = 0, ActiveParticle = (\<lambda>_. 0),
     Nextnode = None, Father = (\<lambda>_. 0)\<rparr>"

definition ex_timebin_add ::
  "nat \<Rightarrow> nat \<Rightarrow> nat \<Rightarrow> timebin_data \<Rightarrow> timebin_data" where
  "ex_timebin_add parent child bin tb =
     tb\<lparr>TimeBinCount := (TimeBinCount tb)(bin := TimeBinCount tb bin + 1)\<rparr>"


section \<open>The driver loop of the decomposition\<close>

text \<open>
  The \<^verbatim>\<open>do ... while(retsum)\<close> loop of \<^verbatim>\<open>domain_Decomposition\<close>. The state is
  \<^verbatim>\<open>All.TopNodeAllocFactor\<close> together with \<^verbatim>\<open>domain_allocated_flag\<close>. Each attempt
  calls \<^verbatim>\<open>domain_allocate\<close> and \<^verbatim>\<open>domain_decompose\<close>; the sum over all ranks of
  the return values of \<^verbatim>\<open>domain_decompose\<close> (\<^verbatim>\<open>retsum\<close>) is the input of the
  model, one value for every attempt. A list that ends before the loop does gives
  \<open>None\<close>. The \<^verbatim>\<open>endrun(781)\<close> is issued by rank 0 and takes the whole process
  group down.
\<close>

type_synonym driver_state = "real \<times> bool"

definition domain_allocate :: "driver_state \<Rightarrow> driver_state" where
  "domain_allocate st = (fst st, True)"

definition domain_free :: "driver_state \<Rightarrow> driver_state" where
  "domain_free st = (if snd st then (fst st, False) else st)"

fun decomposition_loop :: "int list \<Rightarrow> driver_state \<Rightarrow> (error + driver_state) option" where
  "decomposition_loop [] st = None"
| "decomposition_loop (retsum # rest) st =
     (let st1 = domain_allocate st in
      if retsum \<noteq> 0 then
        let st2 = domain_free st1;
            st3 = (fst st2 * 1.3, snd st2)
        in if fst st3 > 1000 then Some (Inl (Endrun 781))
           else decomposition_loop rest st3
      else Some (Inr st1))"

section \<open>Splitting the leaves into segments\<close>







section \<open>Assigning segments to ranks and checking the memory bound\<close>

















section \<open>Garbage collection: entries of mass zero\<close>







section \<open>Garbage collection: black-hole slots\<close>

text \<open>
  The comparison function handed to \<^verbatim>\<open>qsort\<close>: slots whose \<^verbatim>\<open>ReverseLink\<close> is
  \<open>-1\<close> go last, the others are ordered by \<^verbatim>\<open>ReverseLink\<close>.
\<close>

definition bh_cmp_reverse_link :: "bh_particle_data \<Rightarrow> bh_particle_data \<Rightarrow> int" where
  "bh_cmp_reverse_link b1 b2 =
     (if ReverseLink b1 = -1 \<and> ReverseLink b2 = -1 then 0
      else if ReverseLink b1 = -1 then 1
      else if ReverseLink b2 = -1 then -1
      else (if ReverseLink b1 > ReverseLink b2 then 1 else 0) -
           (if ReverseLink b1 < ReverseLink b2 then 1 else 0))"

text \<open>
  \<^verbatim>\<open>qsort\<close> belongs to the C library. What the C standard promises of it: the result
  is a rearrangement of the array in which no element compares greater than a later
  one. The order of elements that compare equal is not determined.
\<close>

definition qsort_contract :: "('a \<Rightarrow> 'a \<Rightarrow> int) \<Rightarrow> ('a list \<Rightarrow> 'a list) \<Rightarrow> bool" where
  "qsort_contract cmp qsort \<longleftrightarrow>
     (\<forall>xs. mset (qsort xs) = mset xs \<and> sorted_wrt (\<lambda>a b. cmp a b \<le> 0) (qsort xs))"

text \<open>\<^verbatim>\<open>for(i = 0; i < n; i++) BhP[i].ReverseLink = -1;\<close>\<close>

definition bh_reset_links :: "nat \<Rightarrow> bh_particle_data list \<Rightarrow> bh_particle_data list" where
  "bh_reset_links n bhp = foldl (\<lambda>b i. b[i := (b ! i)\<lparr>ReverseLink := -1\<rparr>]) bhp [0..<n]"

text \<open>
  The first pass over the base table, over the indices still to visit. The link is
  written before the two consistency checks, as in the source.
\<close>

fun bh_mark ::
  "particle_data list \<Rightarrow> nat \<Rightarrow> nat list \<Rightarrow> bh_particle_data list \<Rightarrow>
   error + bh_particle_data list" where
  "bh_mark ps nbh [] bhp = Inr bhp"
| "bh_mark ps nbh (i # rest) bhp =
     (if Type (ps ! i) = 5 then
        (let bhp1 = bhp[PI (ps ! i) := (bhp ! PI (ps ! i))\<lparr>ReverseLink := int i\<rparr>]
         in if PI (ps ! i) \<ge> nbh then Inl (Endrun 1)
            else if bhID (bhp1 ! PI (ps ! i)) \<noteq> ID (ps ! i) then Inl (Endrun 1)
            else bh_mark ps nbh rest bhp1)
      else bh_mark ps nbh rest bhp)"

text \<open>\<^verbatim>\<open>while(N_bh_slots > 0 && BhP[N_bh_slots - 1].ReverseLink == -1) N_bh_slots--;\<close>\<close>

fun bh_shrink :: "bh_particle_data list \<Rightarrow> nat \<Rightarrow> nat" where
  "bh_shrink bhp 0 = 0"
| "bh_shrink bhp (Suc n) = (if ReverseLink (bhp ! n) = -1 then bh_shrink bhp n else Suc n)"

text \<open>\<^verbatim>\<open>for(i = 0; i < N_bh_slots; i++) P[BhP[i].ReverseLink].PI = i;\<close>\<close>

definition bh_relink ::
  "bh_particle_data list \<Rightarrow> nat \<Rightarrow> particle_data list \<Rightarrow> particle_data list" where
  "bh_relink bhp nbh ps =
     foldl (\<lambda>p i. p[nat (ReverseLink (bhp ! i)) := (p ! nat (ReverseLink (bhp ! i)))\<lparr>PI := i\<rparr>])
       ps [0..<nbh]"

text \<open>The closing verification pass; it counts the black-hole entries in \<open>j\<close>.\<close>

fun bh_verify ::
  "particle_data list \<Rightarrow> bh_particle_data list \<Rightarrow> nat \<Rightarrow> nat list \<Rightarrow> nat \<Rightarrow> error + nat" where
  "bh_verify ps bhp nbh [] j = Inr j"
| "bh_verify ps bhp nbh (i # rest) j =
     (if Type (ps ! i) \<noteq> 5 then bh_verify ps bhp nbh rest j
      else if PI (ps ! i) \<ge> nbh then Inl (Endrun 1)
      else if bhID (bhp ! PI (ps ! i)) \<noteq> ID (ps ! i) then Inl (Endrun 1)
      else bh_verify ps bhp nbh rest (j + 1))"

text \<open>
  \<^verbatim>\<open>domain_bh_garbage_collection\<close>. \<open>others0\<close> is the number of black-hole slots on
  the other ranks (the rest of \<^verbatim>\<open>total0\<close>); the second total only feeds a log
  message. The result is the return value and the new tables.
\<close>

definition domain_bh_garbage_collection ::
  "(bh_particle_data list \<Rightarrow> bh_particle_data list) \<Rightarrow> int \<Rightarrow> ('sph, 'tb) globals \<Rightarrow>
   error + (int \<times> ('sph, 'tb) globals)" where
  "domain_bh_garbage_collection qsort others0 s =
     (let total0 = int (N_bh_slots s) + others0
      in if total0 = 0 then Inr (0, s)
         else
           let bhp1 = bh_reset_links (MaxPartBh s) (BhP s)
           in case bh_mark (P s) (N_bh_slots s) [0..<NumPart s] bhp1 of
                Inl e \<Rightarrow> Inl e
              | Inr bhp2 \<Rightarrow>
                  let bhp3 = qsort (take (N_bh_slots s) bhp2) @ drop (N_bh_slots s) bhp2;
                      nbh = bh_shrink bhp3 (N_bh_slots s);
                      ps1 = bh_relink bhp3 nbh (P s);
                      bhp4 = bh_reset_links nbh bhp3
                  in case bh_verify ps1 bhp4 nbh [0..<NumPart s] 0 of
                       Inl e \<Rightarrow> Inl e
                     | Inr j \<Rightarrow>
                         if j \<noteq> nbh then Inl (Endrun 1)
                         else Inr (0, s\<lparr>P := ps1, BhP := bhp4, N_bh_slots := nbh\<rparr>))"

text \<open>
  The consistency of the links that the collector expects of its input: every live
  black-hole entry (type 5) points to one of the \<open>N_bh_slots\<close> slots, that slot
  carries the entry's identifier, and no slot is shared by two entries.
\<close>

definition bh_links_ok :: "('sph, 'tb) globals \<Rightarrow> bool" where
  "bh_links_ok s \<longleftrightarrow>
     NumPart s \<le> length (P s) \<and> N_bh_slots s \<le> length (BhP s) \<and> MaxPartBh s = length (BhP s) \<and>
     (\<forall>i<NumPart s. Type (P s ! i) = 5 \<longrightarrow>
          PI (P s ! i) < N_bh_slots s \<and> bhID (BhP s ! PI (P s ! i)) = ID (P s ! i)) \<and>
     (\<forall>i<NumPart s. \<forall>j<NumPart s. Type (P s ! i) = 5 \<and> Type (P s ! j) = 5 \<and>
          PI (P s ! i) = PI (P s ! j) \<longrightarrow> i = j)"

text \<open>Insertion sort by the comparison function, an instance of \<^verbatim>\<open>qsort\<close>.\<close>

fun ex_insert :: "bh_particle_data \<Rightarrow> bh_particle_data list \<Rightarrow> bh_particle_data list" where
  "ex_insert b [] = [b]"
| "ex_insert b (c # cs) = (if bh_cmp_reverse_link b c \<le> 0 then b # c # cs else c # ex_insert b cs)"

fun ex_qsort_bh :: "bh_particle_data list \<Rightarrow> bh_particle_data list" where
  "ex_qsort_bh [] = []"
| "ex_qsort_bh (b # bs) = ex_insert b (ex_qsort_bh bs)"

text \<open>Two black holes and a dark matter particle; the slot in the middle is a hole
  left by a removed black hole.\<close>

definition ex_bh1 :: particle_data where
  "ex_bh1 = \<lparr>Mass = 3, Type = 5, ID = 11, Generation = 0, TimeBin = 1,
     GravCost = 0, Key = 5, PI = 2, OnAnotherDomain = False, WillExport = False\<rparr>"

definition ex_bh2 :: particle_data where
  "ex_bh2 = \<lparr>Mass = 4, Type = 5, ID = 12, Generation = 0, TimeBin = 1,
     GravCost = 0, Key = 6, PI = 0, OnAnotherDomain = False, WillExport = False\<rparr>"

definition ex_bh_state :: "(unit, unit) globals" where
  "ex_bh_state = \<lparr>P = [ex_bh1, ex_dm, ex_bh2, ex_dm], NumPart = 3, MaxPart = 4,
     N_sph_slots = 0, SphP = [(), (), (), ()], N_bh_slots = 3,
     BhP = [\<lparr>bhID = 12, ReverseLink = 7, Accretion = 1\<rparr>,
            \<lparr>bhID = 99, ReverseLink = -1, Accretion = 2\<rparr>,
            \<lparr>bhID = 11, ReverseLink = 0, Accretion = 3\<rparr>,
            \<lparr>bhID = 0, ReverseLink = 5, Accretion = 0\<rparr>],
     MaxPartBh = 4,
     TimeBins = ex_tb, NumActiveParticle = 0, ActiveParticle = (\<lambda>_. 0),
     Nextnode = None, Father = (\<lambda>_. 0)\<rparr>"

section \<open>Local refinement of the top-level tree\<close>

text \<open>
  A node of the local top-level tree (\<^verbatim>\<open>struct local_topnode_data\<close>). Peano-Hilbert
  keys are natural numbers; indices that use \<open>-1\<close> as "none" are integers.
\<close>

record local_topnode_data =
  Size :: nat
  StartKey :: nat
  Count :: int
  Daughter :: int
  Leaf :: int
  Parent :: int
  PIndex :: int
  Cost :: real

text \<open>An entry of the sorted key list \<^verbatim>\<open>mp\<close>: a key and the index of its particle.\<close>

record peano_hilbert_data =
  key :: nat
  index :: nat

text \<open>
  \<^verbatim>\<open>domain_particle_costfactor\<close>; the constant \<^verbatim>\<open>TIMEBASE\<close> is declared outside
  \<^verbatim>\<open>domain.c\<close> and is a parameter.
\<close>

definition domain_particle_costfactor :: "real \<Rightarrow> particle_data \<Rightarrow> real" where
  "domain_particle_costfactor timebase p =
     (if TimeBin p \<noteq> 0 then (1 + GravCost p) / 2 ^ TimeBin p
      else (1 + GravCost p) / timebase)"

text \<open>
  One iteration of the loop that initialises the new daughters of node \<open>i\<close>: the
  daughter \<open>j\<close> is written at \<open>Daughter i + j\<close>, field by field as in the source.
\<close>

definition init_daughter ::
  "nat \<Rightarrow> local_topnode_data list \<Rightarrow> nat \<Rightarrow> local_topnode_data list" where
  "init_daughter i t j =
     (let sub = nat (Daughter (t ! i)) + j;
          t1 = t[sub := (t ! sub)\<lparr>Daughter := -1\<rparr>];
          t2 = t1[sub := (t1 ! sub)\<lparr>Parent := int i\<rparr>];
          t3 = t2[sub := (t2 ! sub)\<lparr>Size := Size (t2 ! i) div 8\<rparr>];
          t4 = t3[sub := (t3 ! sub)\<lparr>StartKey := StartKey (t3 ! i) + j * Size (t3 ! sub)\<rparr>];
          t5 = t4[sub := (t4 ! sub)\<lparr>PIndex := PIndex (t4 ! i)\<rparr>];
          t6 = t5[sub := (t5 ! sub)\<lparr>Count := 0\<rparr>]
      in t6[sub := (t6 ! sub)\<lparr>Cost := 0\<rparr>])"

definition init_daughters ::
  "nat \<Rightarrow> local_topnode_data list \<Rightarrow> local_topnode_data list" where
  "init_daughters i nodes = foldl (init_daughter i) nodes [0..<8]"

text \<open>
  The inner loop of the particle pass: while the key has passed the start of the next
  daughter, move on to it and record the particle as its first.
\<close>

function advance_daughter ::
  "local_topnode_data list \<Rightarrow> nat \<Rightarrow> nat \<Rightarrow> nat \<Rightarrow> nat \<Rightarrow> local_topnode_data list \<times> nat" where
  "advance_daughter nodes sub k p j =
     (if j < 7 \<and> StartKey (nodes ! (sub + j + 1)) \<le> k
      then advance_daughter (nodes[sub + j + 1 := (nodes ! (sub + j + 1))\<lparr>PIndex := int p\<rparr>])
             sub k p (j + 1)
      else (nodes, j))"
  by pat_completeness auto
termination
  by (relation "measure (\<lambda>(nodes, sub, k, p, j). 7 - j)") auto

text \<open>
  The pass over the particles of node \<open>i\<close>: particle \<open>p\<close> of the node is entry
  \<open>p + PIndex i\<close> of \<^verbatim>\<open>mp\<close>. Node \<open>i\<close> itself is not written in the loop, so its
  \<^verbatim>\<open>Count\<close> and \<^verbatim>\<open>PIndex\<close> are read once.
\<close>

function distribute_particles ::
  "real \<Rightarrow> particle_data list \<Rightarrow> peano_hilbert_data list \<Rightarrow> nat \<Rightarrow> int \<Rightarrow> int \<Rightarrow>
   local_topnode_data list \<Rightarrow> nat \<Rightarrow> nat \<Rightarrow> local_topnode_data list" where
  "distribute_particles timebase ps mp sub pindex cnt nodes p j =
     (if int p < cnt then
        (let e = mp ! nat (int p + pindex);
             (nodes1, j1) = advance_daughter nodes sub (key e) p j;
             nodes2 = nodes1[sub + j1 := (nodes1 ! (sub + j1))
                        \<lparr>Cost := Cost (nodes1 ! (sub + j1)) +
                                 domain_particle_costfactor timebase (ps ! index e)\<rparr>];
             nodes3 = nodes2[sub + j1 := (nodes2 ! (sub + j1))
                        \<lparr>Count := Count (nodes2 ! (sub + j1)) + 1\<rparr>]
         in distribute_particles timebase ps mp sub pindex cnt nodes3 (p + 1) j1)
      else nodes)"
  by pat_completeness auto
termination
  by (relation "measure (\<lambda>(tb, ps, mp, sub, pindex, cnt, nodes, p, j). nat (cnt - int p))") auto

text \<open>
  One iteration of the last loop, which checks daughter \<open>j\<close> of node \<open>i\<close> with the
  recursive call \<open>rec\<close>. The accumulator is the return value so far and the state; once
  a call has returned non-zero the function has returned 1 and nothing more is done.
\<close>

definition refine_daughter ::
  "(nat \<Rightarrow> local_topnode_data list \<times> nat \<Rightarrow> (int \<times> local_topnode_data list \<times> nat) option) \<Rightarrow>
   nat \<Rightarrow> (int \<times> local_topnode_data list \<times> nat) option \<Rightarrow> nat \<Rightarrow>
   (int \<times> local_topnode_data list \<times> nat) option" where
  "refine_daughter rec i acc j =
     (case acc of
        None \<Rightarrow> None
      | Some (ret, st) \<Rightarrow>
          if ret \<noteq> 0 then Some (ret, st)
          else (case rec (nat (Daughter (fst st ! i)) + j) st of
                  None \<Rightarrow> None
                | Some (r, st') \<Rightarrow> Some (if r \<noteq> 0 then 1 else 0, st')))"

text \<open>
  \<^verbatim>\<open>domain_check_for_local_refine(i, mp)\<close> on the state \<open>(topNodes, NTopnodes)\<close>
  with the budget \<open>MaxTopNodes\<close>. The recursion descends along nodes of decreasing
  size; its depth is bounded by the first argument, and a call that would need a
  deeper descent is \<open>None\<close>. The result is the return value (1: out of nodes) and the
  new state.
\<close>

fun domain_check_for_local_refine ::
  "nat \<Rightarrow> real \<Rightarrow> particle_data list \<Rightarrow> peano_hilbert_data list \<Rightarrow> nat \<Rightarrow> nat \<Rightarrow>
   local_topnode_data list \<times> nat \<Rightarrow> (int \<times> local_topnode_data list \<times> nat) option" where
  "domain_check_for_local_refine 0 timebase ps mp maxtopnodes i st = None"
| "domain_check_for_local_refine (Suc depth) timebase ps mp maxtopnodes i st =
     (let topNodes = fst st; ntopnodes = snd st in
      if Size (topNodes ! i) < 8 then Some (0, st)
      else if Parent (topNodes ! i) < 0 \<or>
              (real_of_int (Count (topNodes ! i)) \<le>
                 0.8 * real_of_int (Count (topNodes ! nat (Parent (topNodes ! i)))) \<and>
               Cost (topNodes ! i) \<le> 0.8 * Cost (topNodes ! nat (Parent (topNodes ! i))))
           then Some (0, st)
      else if ntopnodes + 8 > maxtopnodes then Some (1, st)
      else
        let t1 = topNodes[i := (topNodes ! i)\<lparr>Daughter := int ntopnodes\<rparr>];
            ntopnodes1 = ntopnodes + 8;
            t2 = init_daughters i t1;
            t3 = distribute_particles timebase ps mp (nat (Daughter (t2 ! i))) (PIndex (t2 ! i))
                   (Count (t2 ! i)) t2 0 0
        in foldl (refine_daughter
                    (\<lambda>sub st'. domain_check_for_local_refine depth timebase ps mp maxtopnodes sub st')
                    i)
             (Some (0, (t3, ntopnodes1))) [0..<8])"


text \<open>
  The state that \<^verbatim>\<open>domain_determineTopTree\<close> starts the refinement from: a single
  root that covers \<open>[0, PEANOCELLS)\<close> and holds all \<open>NumPart\<close> local particles.
\<close>

definition root_node :: "nat \<Rightarrow> int \<Rightarrow> real \<Rightarrow> local_topnode_data" where
  "root_node peanocells numpart gravcost =
     \<lparr>Size = peanocells, StartKey = 0, Count = numpart, Daughter = -1, Leaf = 0, Parent = -1,
      PIndex = 0, Cost = gravcost\<rparr>"





subsection \<open>Predicates for the refinement proofs\<close>





section \<open>The receive-side safety loop of the exchange\<close>























section \<open>Properties of forking\<close>

lemma mask56: "(x::64 word) AND 0x00ffffffffffffff = take_bit 56 x"
  by (simp add: take_bit_eq_mask mask_eq_exp_minus_1)

lemma child_ID_or:
  "child_ID pid g = (pid AND 0x00ffffffffffffff) OR push_bit 56 (ucast g)"
  unfolding child_ID_def mask56
  by (rule disjunctive_add) (auto simp: bit_take_bit_iff bit_push_bit_iff)

lemma child_ID_low: "take_bit 56 (child_ID pid g) = take_bit 56 pid"
  unfolding child_ID_or mask56
  by (rule bit_word_eqI) (auto simp: bit_take_bit_iff bit_or_iff bit_push_bit_iff)

lemma child_ID_high: "drop_bit 56 (child_ID pid g) = ucast g"
  unfolding child_ID_or mask56
  by (rule bit_word_eqI)
    (auto simp: bit_take_bit_iff bit_or_iff bit_push_bit_iff bit_drop_bit_eq bit_ucast_iff
      dest: bit_imp_le_length)

text \<open>The table after a successful fork, in one equation.\<close>

lemma fork_P:
  assumes "NumPart s < MaxPart s" and "parent < NumPart s" and "MaxPart s \<le> length (P s)"
  shows "\<exists>s'. domain_fork_particle tba parent s = Inr (NumPart s, s') \<and>
     NumPart s' = NumPart s + 1 \<and>
     P s' = (P s)[parent := (P s ! parent)\<lparr>Generation := Generation (P s ! parent) + 1\<rparr>,
                  NumPart s := (P s ! parent)\<lparr>Generation := Generation (P s ! parent) + 1,
                       ID := child_ID (ID (P s ! parent)) (Generation (P s ! parent) + 1),
                       Mass := 0\<rparr>] \<and>
     SphP s' = SphP s \<and> BhP s' = BhP s \<and> N_sph_slots s' = N_sph_slots s \<and>
     N_bh_slots s' = N_bh_slots s \<and> MaxPart s' = MaxPart s"
  using assms
  by (simp add: domain_fork_particle_def Let_def split: option.split)

lemma fork_full:
  "NumPart s \<ge> MaxPart s \<Longrightarrow> domain_fork_particle tba parent s = Inl (Endrun 8888)"
  by (simp add: domain_fork_particle_def)

text \<open>
  C4. For a parent index of a live entry and a table with room
  (\<open>NumPart < MaxPart\<close>), \<open>domain_fork_particle\<close> returns the fresh index
  \<open>NumPart\<close> and makes the table one entry longer; the parent's generation counter is
  incremented; the child is a copy of the parent (after the increment) except that its
  mass is zero and its identifier is the parent's identifier with the high eight bits
  replaced by the new generation: the low 56 bits are the parent's, the high 8 bits
  are the generation, and for a first fork (generation 0 before) the identifier is
  \<open>(parent_id AND 0x00FFFFFFFFFFFFFF) OR (1 << 56)\<close>. With a full table
  (\<open>NumPart \<ge> MaxPart\<close>) the call is the fatal error \<open>endrun(8888)\<close>.
\<close>

theorem fork_child_identifier:
  assumes "parent < NumPart s" and "MaxPart s \<le> length (P s)"
  shows "(NumPart s < MaxPart s \<longrightarrow>
           (\<exists>s'. domain_fork_particle tba parent s = Inr (NumPart s, s') \<and>
              NumPart s' = NumPart s + 1 \<and>
              Generation (P s' ! parent) = Generation (P s ! parent) + 1 \<and>
              P s' ! NumPart s = (P s' ! parent)\<lparr>ID := ID (P s' ! NumPart s), Mass := 0\<rparr> \<and>
              ID (P s' ! NumPart s) =
                (ID (P s ! parent) AND 0x00ffffffffffffff) OR
                push_bit 56 (ucast (Generation (P s ! parent) + 1)) \<and>
              take_bit 56 (ID (P s' ! NumPart s)) = take_bit 56 (ID (P s ! parent)) \<and>
              drop_bit 56 (ID (P s' ! NumPart s)) = ucast (Generation (P s ! parent) + 1) \<and>
              (Generation (P s ! parent) = 0 \<longrightarrow>
                 ID (P s' ! NumPart s) =
                   (ID (P s ! parent) AND 0x00ffffffffffffff) OR push_bit 56 1) \<and>
              Mass (P s' ! NumPart s) = 0)) \<and>
         (MaxPart s \<le> NumPart s \<longrightarrow> domain_fork_particle tba parent s = Inl (Endrun 8888))"
proof (intro conjI impI)
  assume room: "NumPart s < MaxPart s"
  from fork_P [OF room assms, of tba] obtain s' where
    r: "domain_fork_particle tba parent s = Inr (NumPart s, s')" and
    n: "NumPart s' = NumPart s + 1" and
    p: "P s' = (P s)[parent := (P s ! parent)\<lparr>Generation := Generation (P s ! parent) + 1\<rparr>,
                  NumPart s := (P s ! parent)\<lparr>Generation := Generation (P s ! parent) + 1,
                       ID := child_ID (ID (P s ! parent)) (Generation (P s ! parent) + 1),
                       Mass := 0\<rparr>]"
    by blast
  have ne: "parent \<noteq> NumPart s" and l1: "parent < length (P s)" and l2: "NumPart s < length (P s)"
    using assms room by simp_all
  have child: "P s' ! NumPart s = (P s ! parent)\<lparr>Generation := Generation (P s ! parent) + 1,
                       ID := child_ID (ID (P s ! parent)) (Generation (P s ! parent) + 1),
                       Mass := 0\<rparr>"
    using l2 by (simp add: p)
  have par: "P s' ! parent = (P s ! parent)\<lparr>Generation := Generation (P s ! parent) + 1\<rparr>"
    using l1 ne by (simp add: p)
  have first: "Generation (P s ! parent) = 0 \<longrightarrow>
      ID (P s' ! NumPart s) = (ID (P s ! parent) AND 0x00ffffffffffffff) OR push_bit 56 1"
    by (simp add: child child_ID_or)
  show "\<exists>s'. domain_fork_particle tba parent s = Inr (NumPart s, s') \<and>
              NumPart s' = NumPart s + 1 \<and>
              Generation (P s' ! parent) = Generation (P s ! parent) + 1 \<and>
              P s' ! NumPart s = (P s' ! parent)\<lparr>ID := ID (P s' ! NumPart s), Mass := 0\<rparr> \<and>
              ID (P s' ! NumPart s) =
                (ID (P s ! parent) AND 0x00ffffffffffffff) OR
                push_bit 56 (ucast (Generation (P s ! parent) + 1)) \<and>
              take_bit 56 (ID (P s' ! NumPart s)) = take_bit 56 (ID (P s ! parent)) \<and>
              drop_bit 56 (ID (P s' ! NumPart s)) = ucast (Generation (P s ! parent) + 1) \<and>
              (Generation (P s ! parent) = 0 \<longrightarrow>
                 ID (P s' ! NumPart s) =
                   (ID (P s ! parent) AND 0x00ffffffffffffff) OR push_bit 56 1) \<and>
              Mass (P s' ! NumPart s) = 0"
    apply (rule exI [of _ s'])
    using r n first
    by (simp add: child par child_ID_or [symmetric] child_ID_low child_ID_high)
next
  assume "MaxPart s \<le> NumPart s"
  then show "domain_fork_particle tba parent s = Inl (Endrun 8888)"
    by (rule fork_full)
qed

theorem fork_child_identifier_witness:
  "(0::nat) < NumPart ex_fork_state \<and> MaxPart ex_fork_state \<le> length (P ex_fork_state) \<and>
   NumPart ex_fork_state < MaxPart ex_fork_state \<and>
   Generation (P ex_fork_state ! 0) = 0 \<and>
   (\<exists>s'. domain_fork_particle ex_timebin_add 0 ex_fork_state = Inr (2, s') \<and>
      NumPart s' = 3 \<and> Generation (P s' ! 0) = 1 \<and>
      ID (P s' ! 2) = 0x01CDEF0123456789 \<and> Mass (P s' ! 2) = 0) \<and>
   MaxPart (ex_fork_state\<lparr>NumPart := 3\<rparr>) \<le> NumPart (ex_fork_state\<lparr>NumPart := 3\<rparr>) \<and>
   domain_fork_particle ex_timebin_add 0 (ex_fork_state\<lparr>NumPart := 3\<rparr>) = Inl (Endrun 8888)"
proof -
  have h1: "(0::nat) < NumPart ex_fork_state" and h2: "MaxPart ex_fork_state \<le> length (P ex_fork_state)"
    and h3: "NumPart ex_fork_state < MaxPart ex_fork_state"
    and h4: "Generation (P ex_fork_state ! 0) = 0"
    and h5: "ID (P ex_fork_state ! 0) = 0xABCDEF0123456789"
    and h6: "NumPart ex_fork_state = 2"
    by (simp_all add: ex_fork_state_def ex_gas_def)
  have g1: "(0::nat) < NumPart (ex_fork_state\<lparr>NumPart := 3\<rparr>)"
    and g2: "MaxPart (ex_fork_state\<lparr>NumPart := 3\<rparr>) \<le> length (P (ex_fork_state\<lparr>NumPart := 3\<rparr>))"
    and g3: "MaxPart (ex_fork_state\<lparr>NumPart := 3\<rparr>) \<le> NumPart (ex_fork_state\<lparr>NumPart := 3\<rparr>)"
    by (simp_all add: ex_fork_state_def)
  from fork_child_identifier [OF h1 h2, of ex_timebin_add] h3 h4 h5 h6
  have a: "\<exists>s'. domain_fork_particle ex_timebin_add 0 ex_fork_state = Inr (2, s') \<and>
      NumPart s' = 3 \<and> Generation (P s' ! 0) = 1 \<and>
      ID (P s' ! 2) = 0x01CDEF0123456789 \<and> Mass (P s' ! 2) = 0"
    by auto
  from fork_child_identifier [OF g1 g2, of ex_timebin_add] g3
  have b: "domain_fork_particle ex_timebin_add 0 (ex_fork_state\<lparr>NumPart := 3\<rparr>) = Inl (Endrun 8888)"
    by blast
  show ?thesis using h1 h2 h3 h4 a b g3 by blast
qed

text \<open>
  C10. After a successful fork the child entry equals the pre-fork parent entry in every
  field except the identifier, the mass (zero) and the generation (the incremented
  value); in particular its auxiliary index \<open>PI\<close> is the parent's. The parent entry is
  unchanged except for its incremented generation, every other entry of the base table
  is unchanged, and so are the auxiliary tables and their slot counts.
\<close>

theorem fork_frame:
  assumes "NumPart s < MaxPart s" and "parent < NumPart s" and "MaxPart s \<le> length (P s)"
  shows "\<exists>s'. domain_fork_particle tba parent s = Inr (NumPart s, s') \<and>
     P s' ! NumPart s = (P s ! parent)\<lparr>Generation := Generation (P s ! parent) + 1,
                           ID := ID (P s' ! NumPart s), Mass := 0\<rparr> \<and>
     PI (P s' ! NumPart s) = PI (P s ! parent) \<and>
     P s' ! parent = (P s ! parent)\<lparr>Generation := Generation (P s ! parent) + 1\<rparr> \<and>
     (\<forall>i < length (P s). i \<noteq> parent \<and> i \<noteq> NumPart s \<longrightarrow> P s' ! i = P s ! i) \<and>
     length (P s') = length (P s) \<and>
     SphP s' = SphP s \<and> BhP s' = BhP s \<and>
     N_sph_slots s' = N_sph_slots s \<and> N_bh_slots s' = N_bh_slots s"
proof -
  from fork_P [OF assms, of tba] obtain s' where
    r: "domain_fork_particle tba parent s = Inr (NumPart s, s')" and
    p: "P s' = (P s)[parent := (P s ! parent)\<lparr>Generation := Generation (P s ! parent) + 1\<rparr>,
                  NumPart s := (P s ! parent)\<lparr>Generation := Generation (P s ! parent) + 1,
                       ID := child_ID (ID (P s ! parent)) (Generation (P s ! parent) + 1),
                       Mass := 0\<rparr>]" and
    f: "SphP s' = SphP s" "BhP s' = BhP s" "N_sph_slots s' = N_sph_slots s"
       "N_bh_slots s' = N_bh_slots s"
    by blast
  have ne: "parent \<noteq> NumPart s" and l1: "parent < length (P s)" and l2: "NumPart s < length (P s)"
    using assms by simp_all
  show ?thesis
    apply (rule exI [of _ s'])
    using r f l1 l2 ne by (simp add: p)
qed

theorem fork_frame_witness:
  "NumPart ex_fork_state < MaxPart ex_fork_state \<and> (0::nat) < NumPart ex_fork_state \<and>
   MaxPart ex_fork_state \<le> length (P ex_fork_state) \<and>
   (\<exists>s'. domain_fork_particle ex_timebin_add 0 ex_fork_state = Inr (2, s') \<and>
      P s' ! 2 = ex_gas\<lparr>Generation := 1, ID := 0x01CDEF0123456789, Mass := 0\<rparr> \<and>
      PI (P s' ! 2) = PI ex_gas \<and>
      P s' ! 0 = ex_gas\<lparr>Generation := 1\<rparr> \<and> P s' ! 1 = ex_dm)"
proof -
  have h3: "NumPart ex_fork_state < MaxPart ex_fork_state"
    and h1: "(0::nat) < NumPart ex_fork_state"
    and h2: "MaxPart ex_fork_state \<le> length (P ex_fork_state)"
    by (simp_all add: ex_fork_state_def)
  have e: "domain_fork_particle ex_timebin_add 0 ex_fork_state =
      Inr (2, ex_fork_state\<lparr>P := [ex_gas\<lparr>Generation := 1\<rparr>, ex_dm,
              ex_gas\<lparr>Generation := 1, ID := 0x01CDEF0123456789, Mass := 0\<rparr>],
            NumPart := 3, TimeBins := ex_timebin_add 0 2 3 ex_tb,
            NumActiveParticle := 1, ActiveParticle := (\<lambda>_. 0)(0 := 2)\<rparr>)"
    by (simp add: domain_fork_particle_def ex_fork_state_def Let_def ex_gas_def child_ID_def)
  from fork_frame [OF h3 h1 h2, of ex_timebin_add] obtain s' where
    "domain_fork_particle ex_timebin_add 0 ex_fork_state = Inr (NumPart ex_fork_state, s')"
    "P s' ! NumPart ex_fork_state = (P ex_fork_state ! 0)\<lparr>Generation := Generation (P ex_fork_state ! 0) + 1,
                           ID := ID (P s' ! NumPart ex_fork_state), Mass := 0\<rparr>"
    "PI (P s' ! NumPart ex_fork_state) = PI (P ex_fork_state ! 0)"
    "P s' ! 0 = (P ex_fork_state ! 0)\<lparr>Generation := Generation (P ex_fork_state ! 0) + 1\<rparr>"
    "\<forall>i < length (P ex_fork_state). i \<noteq> 0 \<and> i \<noteq> NumPart ex_fork_state \<longrightarrow> P s' ! i = P ex_fork_state ! i"
    by blast
  with e show ?thesis using h1 h2 h3
    by (auto simp: ex_fork_state_def ex_gas_def)
qed


section \<open>Properties of the driver loop\<close>

lemma loop_fail_step:
  "retsum \<noteq> 0 \<Longrightarrow> decomposition_loop (retsum # rest) (f, a) =
     (if f * 1.3 > 1000 then Some (Inl (Endrun 781))
      else decomposition_loop rest (f * 1.3, False))"
  by (simp add: domain_allocate_def domain_free_def Let_def)

lemma loop_fails:
  "\<forall>r \<in> set fs. r \<noteq> 0 \<Longrightarrow> fs \<noteq> [] \<Longrightarrow> 0 \<le> f \<Longrightarrow>
   decomposition_loop (fs @ rest) (f, a) =
     (if f * 1.3 ^ length fs > 1000 then Some (Inl (Endrun 781))
      else decomposition_loop rest (f * 1.3 ^ length fs, False))"
proof (induction fs arbitrary: f a)
  case Nil
  then show ?case by simp
next
  case (Cons r fs)
  have r: "r \<noteq> 0" using Cons.prems by simp
  show ?case
  proof (cases "fs = []")
    case True
    then show ?thesis using r by (simp add: loop_fail_step del: decomposition_loop.simps)
  next
    case False
    define F where "F = f * 1.3"
    define K :: real where "K = 1.3 ^ length fs"
    have F0: "0 \<le> F" using Cons.prems(3) by (simp add: F_def)
    have K1: "1 \<le> K" by (simp add: K_def one_le_power)
    have m: "F \<le> F * K"
      using mult_left_mono [OF K1 F0] by simp
    have e: "f * 1.3 ^ length (r # fs) = F * K"
      by (simp add: F_def K_def)
    have ih: "decomposition_loop (fs @ rest) (F, False) =
     (if F * K > 1000 then Some (Inl (Endrun 781))
      else decomposition_loop rest (F * K, False))"
      unfolding K_def using Cons.prems False F0 by (intro Cons.IH) simp_all
    have st: "decomposition_loop ((r # fs) @ rest) (f, a) =
       (if F > 1000 then Some (Inl (Endrun 781))
        else decomposition_loop (fs @ rest) (F, False))"
      unfolding F_def using r by (simp add: loop_fail_step del: decomposition_loop.simps)
    show ?thesis
      unfolding e st ih using m by auto
  qed
qed

text \<open>
  C2 (as amended). When an attempt fails (\<open>retsum \<noteq> 0\<close>) the driver frees the domain
  structures, multiplies the factor by 1.3 and runs the whole decomposition again.
  After \<open>n\<close> consecutive failures (\<open>n > 0\<close>) from a non-negative factor \<open>f\<close> the
  program has aborted with \<open>endrun(781)\<close> if and only if \<open>f * 1.3 ^ n > 1000\<close>;
  otherwise it goes on with the factor \<open>f * 1.3 ^ n\<close> and the structures freed. The
  bound is on the factor, not on the number of restarts.
\<close>

theorem decomposition_restart:
  assumes "\<forall>r \<in> set fs. r \<noteq> 0" and "fs \<noteq> []" and "0 \<le> f"
  shows "decomposition_loop (fs @ rest) (f, a) =
     (if f * 1.3 ^ length fs > 1000 then Some (Inl (Endrun 781))
      else decomposition_loop rest (f * 1.3 ^ length fs, False))"
  using assms by (rule loop_fails)

theorem decomposition_restart_witness:
  "(1::int) \<noteq> 0 \<and> (2::int) \<noteq> 0 \<and> [1, 2, 1::int] \<noteq> [] \<and> (0::real) \<le> 500 \<and>
   decomposition_loop ([1, 2, 1] @ [0]) (500, False) = Some (Inl (Endrun 781)) \<and>
   (3::int) \<noteq> 0 \<and> [3::int] \<noteq> [] \<and> (0::real) \<le> 0.001 \<and>
   decomposition_loop ([3] @ [0]) (0.001, False) = Some (Inr (0.0013, True))"
proof -
  have h1: "\<forall>r \<in> set [1, 2, 1::int]. r \<noteq> 0" and h2: "[1, 2, 1::int] \<noteq> []"
    and h3: "(0::real) \<le> 500" by simp_all
  have g1: "\<forall>r \<in> set [3::int]. r \<noteq> 0" and g2: "[3::int] \<noteq> []"
    and g3: "(0::real) \<le> 0.001" by simp_all
  have a: "decomposition_loop ([1, 2, 1] @ [0]) (500, False) = Some (Inl (Endrun 781))"
    using decomposition_restart [OF h1 h2 h3, of "[0]" False] by (simp add: power3_eq_cube)
  have b: "decomposition_loop ([3] @ [0]) (0.001, False) = Some (Inr (0.0013, True))"
    using decomposition_restart [OF g1 g2 g3, of "[0]" False]
    by (simp add: domain_allocate_def)
  show ?thesis using h2 h3 g2 g3 a b by simp
qed

text \<open>
  Ten recoveries in a row do not abort the program: from factor 1, ten failed attempts
  followed by a successful one end normally with the factor \<open>1.3 ^ 10 = 13.7858491849\<close>.
\<close>

theorem ten_restarts_not_fatal:
  "decomposition_loop [1, 1, 1, 1, 1, 1, 1, 1, 1, 1, 0] (1, False) =
     Some (Inr (13.7858491849, True))"
  by (simp add: domain_allocate_def domain_free_def Let_def)

section \<open>Properties of the split\<close>



















section \<open>Properties of the mass-zero pass\<close>





















section \<open>Properties of the black-hole pass\<close>

lemma reset_links_length [simp]: "length (bh_reset_links n bhp) = length bhp"
  unfolding bh_reset_links_def by (induction n) simp_all

lemma reset_links_nth:
  "m < length bhp \<Longrightarrow>
   bh_reset_links n bhp ! m = (if m < n then (bhp ! m)\<lparr>ReverseLink := -1\<rparr> else bhp ! m)"
proof (induction n)
  case 0
  then show ?case by (simp add: bh_reset_links_def)
next
  case (Suc n)
  have len: "length (bh_reset_links n bhp) = length bhp" by simp
  have step: "bh_reset_links (Suc n) bhp =
      (bh_reset_links n bhp)[n := (bh_reset_links n bhp ! n)\<lparr>ReverseLink := -1\<rparr>]"
    by (simp add: bh_reset_links_def)
  show ?case
  proof (cases "m = n")
    case True
    then show ?thesis using Suc len by (simp add: step)
  next
    case False
    then show ?thesis using Suc len by (auto simp: step)
  qed
qed

lemma bh_mark_append:
  "bh_mark ps nbh (xs @ ys) bhp =
     (case bh_mark ps nbh xs bhp of Inl e \<Rightarrow> Inl e | Inr b \<Rightarrow> bh_mark ps nbh ys b)"
  by (induction xs arbitrary: bhp) (simp_all add: Let_def)

lemma bh_mark_Suc:
  "bh_mark ps nbh [0..<Suc n] bhp =
     (case bh_mark ps nbh [0..<n] bhp of Inl e \<Rightarrow> Inl e | Inr b \<Rightarrow> bh_mark ps nbh [n] b)"
  by (simp add: bh_mark_append)

definition bh_marked ::
  "particle_data list \<Rightarrow> nat \<Rightarrow> bh_particle_data list \<Rightarrow> bh_particle_data list \<Rightarrow> bool" where
  "bh_marked ps n bhp bhp' \<longleftrightarrow>
     length bhp' = length bhp \<and>
     (\<forall>m<length bhp.
        bhp' ! m = (bhp ! m)\<lparr>ReverseLink := ReverseLink (bhp' ! m)\<rparr> \<and>
        (ReverseLink (bhp' ! m) = -1 \<or>
         (\<exists>i<n. Type (ps ! i) = 5 \<and> PI (ps ! i) = m \<and> ReverseLink (bhp' ! m) = int i)))"

lemma bh_marked_0:
  "\<forall>m<length bhp. ReverseLink (bhp ! m) = -1 \<Longrightarrow> bh_marked ps 0 bhp bhp"
  by (simp add: bh_marked_def)

lemma bh_marked_skip:
  "bh_marked ps n bhp bhp' \<Longrightarrow> bh_marked ps (Suc n) bhp bhp'"
  unfolding bh_marked_def using less_SucI by blast

lemma bh_marked_set:
  assumes "bh_marked ps n bhp bhp'" "Type (ps ! n) = 5" "PI (ps ! n) < length bhp"
  shows "bh_marked ps (Suc n) bhp (bhp'[PI (ps ! n) := (bhp' ! PI (ps ! n))\<lparr>ReverseLink := int n\<rparr>])"
proof -
  let ?k = "PI (ps ! n)"
  let ?b = "bhp'[?k := (bhp' ! ?k)\<lparr>ReverseLink := int n\<rparr>]"
  from assms(1) have len: "length bhp' = length bhp"
    and old: "\<And>m. m < length bhp \<Longrightarrow> bhp' ! m = (bhp ! m)\<lparr>ReverseLink := ReverseLink (bhp' ! m)\<rparr>"
    and lnk: "\<And>m. m < length bhp \<Longrightarrow> ReverseLink (bhp' ! m) = -1 \<or>
         (\<exists>i<n. Type (ps ! i) = 5 \<and> PI (ps ! i) = m \<and> ReverseLink (bhp' ! m) = int i)"
    by (simp_all add: bh_marked_def)
  have "?b ! m = (bhp ! m)\<lparr>ReverseLink := ReverseLink (?b ! m)\<rparr> \<and>
        (ReverseLink (?b ! m) = -1 \<or>
         (\<exists>i<Suc n. Type (ps ! i) = 5 \<and> PI (ps ! i) = m \<and> ReverseLink (?b ! m) = int i))"
    if m: "m < length bhp" for m
  proof (cases "m = ?k")
    case True
    have "?b ! m = (bhp' ! ?k)\<lparr>ReverseLink := int n\<rparr>" using True m len by simp
    also have "\<dots> = (bhp ! ?k)\<lparr>ReverseLink := int n\<rparr>"
      by (subst old [OF assms(3)]) simp
    finally have e: "?b ! m = (bhp ! ?k)\<lparr>ReverseLink := int n\<rparr>" .
    show ?thesis unfolding e using True assms(2) by auto
  next
    case False
    then have e: "?b ! m = bhp' ! m" by simp
    show ?thesis unfolding e using old [OF m] lnk [OF m] less_SucI by blast
  qed
  then show ?thesis unfolding bh_marked_def using len by simp
qed

lemma bh_mark_marked:
  assumes "bh_mark ps nbh [0..<n] bhp = Inr bhp'" and "\<forall>m<length bhp. ReverseLink (bhp ! m) = -1"
    and "nbh \<le> length bhp"
  shows "bh_marked ps n bhp bhp' \<and> (\<forall>i<n. Type (ps ! i) = 5 \<longrightarrow> PI (ps ! i) < nbh)"
  using assms(1)
proof (induction n arbitrary: bhp')
  case 0
  then show ?case using bh_marked_0 [OF assms(2)] by simp
next
  case (Suc n)
  from Suc.prems have "bh_mark ps nbh ([0..<n] @ [n]) bhp = Inr bhp'" by simp
  then obtain b where b: "bh_mark ps nbh [0..<n] bhp = Inr b"
    and st: "bh_mark ps nbh [n] b = Inr bhp'"
    unfolding bh_mark_append by (auto split: sum.splits)
  note ih = Suc.IH [OF b]
  show ?case
  proof (cases "Type (ps ! n) = 5")
    case False
    then have "bhp' = b" using st by simp
    then show ?thesis using ih False bh_marked_skip by (auto simp: less_Suc_eq)
  next
    case True
    have lt: "PI (ps ! n) < nbh" using st True by (auto simp: Let_def split: if_splits)
    have e: "bhp' = b[PI (ps ! n) := (b ! PI (ps ! n))\<lparr>ReverseLink := int n\<rparr>]"
      using st True by (auto simp: Let_def split: if_splits)
    have "bh_marked ps (Suc n) bhp bhp'"
      unfolding e using ih True lt assms(3) by (intro bh_marked_set) simp_all
    then show ?thesis using ih lt by (auto simp: less_Suc_eq)
  qed
qed


lemma bh_shrink_le: "bh_shrink bhp n \<le> n"
  by (induction n) simp_all

lemma bh_shrink_last:
  "0 < bh_shrink bhp n \<Longrightarrow> ReverseLink (bhp ! (bh_shrink bhp n - 1)) \<noteq> -1"
  by (induction n) (simp_all split: if_splits)

lemma bh_shrink_dead:
  "bh_shrink bhp n \<le> k \<Longrightarrow> k < n \<Longrightarrow> ReverseLink (bhp ! k) = -1"
proof (induction n)
  case 0
  then show ?case by simp
next
  case (Suc n)
  show ?case
  proof (cases "ReverseLink (bhp ! n) = -1")
    case True
    then show ?thesis using Suc by (cases "k = n") simp_all
  next
    case False
    then show ?thesis using Suc.prems by simp
  qed
qed

lemma cmp_live:
  assumes "bh_cmp_reverse_link a b \<le> 0" and "ReverseLink b \<noteq> -1"
  shows "ReverseLink a \<noteq> -1 \<and> ReverseLink a \<le> ReverseLink b"
  using assms by (auto simp: bh_cmp_reverse_link_def split: if_splits)

lemma sorted_live:
  assumes "sorted_wrt (\<lambda>a b. bh_cmp_reverse_link a b \<le> 0) xs"
    and "k < length xs" and "ReverseLink (xs ! k) \<noteq> -1" and "a < k"
  shows "ReverseLink (xs ! a) \<noteq> -1 \<and> ReverseLink (xs ! a) \<le> ReverseLink (xs ! k)"
  using sorted_wrt_nth_less [OF assms(1) assms(4) assms(2)] assms(3) by (rule cmp_live)

lemma shrink_sorted_live:
  assumes "sorted_wrt (\<lambda>a b. bh_cmp_reverse_link a b \<le> 0) (take n bhp)" and "n \<le> length bhp"
    and "k < bh_shrink bhp n"
  shows "ReverseLink (bhp ! k) \<noteq> -1"
proof -
  let ?h = "bh_shrink bhp n"
  have pos: "0 < ?h" using assms(3) by simp
  have hn: "?h \<le> n" by (rule bh_shrink_le)
  have last: "ReverseLink (bhp ! (?h - 1)) \<noteq> -1" using pos by (rule bh_shrink_last)
  show ?thesis
  proof (cases "k = ?h - 1")
    case True
    then show ?thesis using last by simp
  next
    case False
    then have lt: "k < ?h - 1" using assms(3) by simp
    have l: "?h - 1 < length (take n bhp)" using pos hn assms(2) by simp
    have "ReverseLink (take n bhp ! (?h - 1)) \<noteq> -1" using last pos hn by simp
    from sorted_live [OF assms(1) l this lt]
    show ?thesis using lt pos hn by simp
  qed
qed

lemma relink_length [simp]: "length (bh_relink bhp n ps) = length ps"
  unfolding bh_relink_def by (induction n) simp_all

lemma relink_Suc:
  "bh_relink bhp (Suc n) ps =
     (bh_relink bhp n ps)[nat (ReverseLink (bhp ! n)) :=
        (bh_relink bhp n ps ! nat (ReverseLink (bhp ! n)))\<lparr>PI := n\<rparr>]"
  by (simp add: bh_relink_def)

lemma relink_only_PI:
  "i < length ps \<Longrightarrow> (bh_relink bhp n ps ! i)\<lparr>PI := PI (ps ! i)\<rparr> = ps ! i"
proof (induction n)
  case 0
  then show ?case by (simp add: bh_relink_def)
next
  case (Suc n)
  then show ?case by (cases "i = nat (ReverseLink (bhp ! n))") (simp_all add: relink_Suc)
qed

lemma relink_untouched:
  "\<forall>k<n. nat (ReverseLink (bhp ! k)) \<noteq> i \<Longrightarrow> bh_relink bhp n ps ! i = ps ! i"
proof (induction n)
  case 0
  then show ?case by (simp add: bh_relink_def)
next
  case (Suc n)
  then show ?case by (simp add: relink_Suc)
qed

lemma qsort_length: "qsort_contract cmp qs \<Longrightarrow> length (qs xs) = length xs"
  unfolding qsort_contract_def by (metis size_mset)

lemma qsort_set: "qsort_contract cmp qs \<Longrightarrow> set (qs xs) = set xs"
  unfolding qsort_contract_def by (metis set_mset_mset)

lemma qsort_sorted: "qsort_contract cmp qs \<Longrightarrow> sorted_wrt (\<lambda>a b. cmp a b \<le> 0) (qs xs)"
  unfolding qsort_contract_def by blast

text \<open>Every slot that survives the shrinking carries the index of a live black-hole
  entry, and it is the slot that entry pointed to.\<close>

lemma bh_live_links:
  assumes c: "qsort_contract bh_cmp_reverse_link qs"
    and mk: "bh_marked ps n bhp bhp2" and nb: "nbh \<le> length bhp"
    and k: "k < bh_shrink (qs (take nbh bhp2) @ drop nbh bhp2) nbh"
  shows "\<exists>i<n. Type (ps ! i) = 5 \<and>
           ReverseLink ((qs (take nbh bhp2) @ drop nbh bhp2) ! k) = int i \<and>
           (qs (take nbh bhp2) @ drop nbh bhp2) ! k = bhp2 ! PI (ps ! i) \<and>
           PI (ps ! i) < nbh"
proof -
  let ?X = "take nbh bhp2"
  let ?b3 = "qs ?X @ drop nbh bhp2"
  have len2: "length bhp2 = length bhp" using mk by (simp add: bh_marked_def)
  have lq: "length (qs ?X) = nbh" using qsort_length [OF c, of ?X] nb len2 by simp
  have tk: "take nbh ?b3 = qs ?X" using lq by simp
  have kn: "k < nbh" using k bh_shrink_le [of ?b3 nbh] by simp
  have "ReverseLink (?b3 ! k) \<noteq> -1"
  proof (rule shrink_sorted_live [OF _ _ k])
    show "sorted_wrt (\<lambda>a b. bh_cmp_reverse_link a b \<le> 0) (take nbh ?b3)"
      unfolding tk using c by (rule qsort_sorted)
    show "nbh \<le> length ?b3" using lq by simp
  qed
  moreover have e: "?b3 ! k = qs ?X ! k" using kn lq by (simp add: nth_append)
  ultimately have live: "ReverseLink (qs ?X ! k) \<noteq> -1" by simp
  have "qs ?X ! k \<in> set (qs ?X)" using kn lq by simp
  then have "qs ?X ! k \<in> set ?X" using qsort_set [OF c] by simp
  then obtain m where m: "m < nbh" "qs ?X ! k = bhp2 ! m"
    using nb len2 by (auto simp: in_set_conv_nth)
  have ml: "m < length bhp" using m nb by simp
  from mk ml have "ReverseLink (bhp2 ! m) = -1 \<or>
         (\<exists>i<n. Type (ps ! i) = 5 \<and> PI (ps ! i) = m \<and> ReverseLink (bhp2 ! m) = int i)"
    by (simp add: bh_marked_def)
  with live m obtain i where "i < n" "Type (ps ! i) = 5" "PI (ps ! i) = m"
      "ReverseLink (bhp2 ! m) = int i"
    by auto
  then show ?thesis using e m by auto
qed


lemma reset_all_dead:
  "\<forall>m<length (bh_reset_links (length bhp) bhp). ReverseLink (bh_reset_links (length bhp) bhp ! m) = -1"
  by (simp add: reset_links_nth)

text \<open>The shape of a run that gets past the early return.\<close>

lemma bh_gc_unfold:
  assumes "domain_bh_garbage_collection qs others0 s = Inr (ret, s')"
    and "int (N_bh_slots s) + others0 \<noteq> 0"
  obtains bhp2 where
    "bh_mark (P s) (N_bh_slots s) [0..<NumPart s] (bh_reset_links (MaxPartBh s) (BhP s)) = Inr bhp2"
    "bh_verify (bh_relink (qs (take (N_bh_slots s) bhp2) @ drop (N_bh_slots s) bhp2)
         (bh_shrink (qs (take (N_bh_slots s) bhp2) @ drop (N_bh_slots s) bhp2) (N_bh_slots s)) (P s))
       (bh_reset_links (bh_shrink (qs (take (N_bh_slots s) bhp2) @ drop (N_bh_slots s) bhp2) (N_bh_slots s))
         (qs (take (N_bh_slots s) bhp2) @ drop (N_bh_slots s) bhp2))
       (bh_shrink (qs (take (N_bh_slots s) bhp2) @ drop (N_bh_slots s) bhp2) (N_bh_slots s))
       [0..<NumPart s] 0 =
     Inr (bh_shrink (qs (take (N_bh_slots s) bhp2) @ drop (N_bh_slots s) bhp2) (N_bh_slots s))"
    "ret = 0"
    "s' = s\<lparr>P := bh_relink (qs (take (N_bh_slots s) bhp2) @ drop (N_bh_slots s) bhp2)
                 (bh_shrink (qs (take (N_bh_slots s) bhp2) @ drop (N_bh_slots s) bhp2) (N_bh_slots s)) (P s),
            BhP := bh_reset_links (bh_shrink (qs (take (N_bh_slots s) bhp2) @ drop (N_bh_slots s) bhp2) (N_bh_slots s))
                 (qs (take (N_bh_slots s) bhp2) @ drop (N_bh_slots s) bhp2),
            N_bh_slots := bh_shrink (qs (take (N_bh_slots s) bhp2) @ drop (N_bh_slots s) bhp2) (N_bh_slots s)\<rparr>"
  using assms
  unfolding domain_bh_garbage_collection_def Let_def
  by (auto split: sum.splits if_splits)

text \<open>
  C9. Let \<^verbatim>\<open>qsort\<close> keep its contract and let the slot table have \<open>MaxPartBh\<close>
  entries, \<open>N_bh_slots\<close> of them in use. Whenever the black-hole pass returns, it
  returns 0 (the force tree is never reported invalid), and apart from the slot table
  \<open>BhP\<close> and the count \<open>N_bh_slots\<close> the only thing it has changed is the field
  \<open>PI\<close> of live type-5 entries of the base table: \<open>NumPart\<close> and every other component
  of the state are the same, every base entry is the same up to \<open>PI\<close> and stays at its
  index, and every entry that is not a live type-5 entry is the same altogether.
\<close>

theorem bh_collection_frame:
  assumes "qsort_contract bh_cmp_reverse_link qs"
    and "N_bh_slots s \<le> length (BhP s)" and "MaxPartBh s = length (BhP s)"
    and "domain_bh_garbage_collection qs others0 s = Inr (ret, s')"
  shows "ret = 0 \<and>
     s' = s\<lparr>P := P s', BhP := BhP s', N_bh_slots := N_bh_slots s'\<rparr> \<and>
     NumPart s' = NumPart s \<and> length (P s') = length (P s) \<and>
     (\<forall>i<length (P s). (P s' ! i)\<lparr>PI := PI (P s ! i)\<rparr> = P s ! i) \<and>
     (\<forall>i<length (P s). \<not> (i < NumPart s \<and> Type (P s ! i) = 5) \<longrightarrow> P s' ! i = P s ! i)"
proof (cases "int (N_bh_slots s) + others0 = 0")
  case True
  then have "ret = 0" "s' = s"
    using assms(4) by (simp_all add: domain_bh_garbage_collection_def)
  then show ?thesis by simp
next
  case False
  from assms(4) False obtain bhp2 where
    mk: "bh_mark (P s) (N_bh_slots s) [0..<NumPart s] (bh_reset_links (MaxPartBh s) (BhP s)) = Inr bhp2"
    and ret: "ret = 0"
    and s': "s' = s\<lparr>P := bh_relink (qs (take (N_bh_slots s) bhp2) @ drop (N_bh_slots s) bhp2)
                 (bh_shrink (qs (take (N_bh_slots s) bhp2) @ drop (N_bh_slots s) bhp2) (N_bh_slots s)) (P s),
            BhP := bh_reset_links (bh_shrink (qs (take (N_bh_slots s) bhp2) @ drop (N_bh_slots s) bhp2) (N_bh_slots s))
                 (qs (take (N_bh_slots s) bhp2) @ drop (N_bh_slots s) bhp2),
            N_bh_slots := bh_shrink (qs (take (N_bh_slots s) bhp2) @ drop (N_bh_slots s) bhp2) (N_bh_slots s)\<rparr>"
    by (rule bh_gc_unfold)
  define bhp1 where "bhp1 = bh_reset_links (MaxPartBh s) (BhP s)"
  define bhp3 where "bhp3 = qs (take (N_bh_slots s) bhp2) @ drop (N_bh_slots s) bhp2"
  define nbh where "nbh = bh_shrink bhp3 (N_bh_slots s)"
  have l1: "length bhp1 = length (BhP s)" by (simp add: bhp1_def)
  have dead: "\<forall>m<length bhp1. ReverseLink (bhp1 ! m) = -1"
    unfolding bhp1_def assms(3) by (rule reset_all_dead)
  have marked: "bh_marked (P s) (NumPart s) bhp1 bhp2"
    using bh_mark_marked [OF mk [folded bhp1_def] dead] assms(2) l1 by simp
  have live: "\<exists>i<NumPart s. Type (P s ! i) = 5 \<and> ReverseLink (bhp3 ! k) = int i"
    if "k < nbh" for k
    using bh_live_links [OF assms(1) marked, of "N_bh_slots s" k] that assms(2) l1
    unfolding nbh_def bhp3_def by auto
  have P': "P s' = bh_relink bhp3 nbh (P s)"
    unfolding s' bhp3_def nbh_def by simp
  have un: "P s' ! i = P s ! i" if "\<not> (i < NumPart s \<and> Type (P s ! i) = 5)" for i
    unfolding P'
  proof (rule relink_untouched, intro allI impI)
    fix k assume "k < nbh"
    from live [OF this] obtain i' where "i' < NumPart s" "Type (P s ! i') = 5"
      "ReverseLink (bhp3 ! k) = int i'" by blast
    then show "nat (ReverseLink (bhp3 ! k)) \<noteq> i" using that by auto
  qed
  have only: "(P s' ! i)\<lparr>PI := PI (P s ! i)\<rparr> = P s ! i" if "i < length (P s)" for i
    unfolding P' using that by (rule relink_only_PI)
  have fr: "s' = s\<lparr>P := P s', BhP := BhP s', N_bh_slots := N_bh_slots s'\<rparr>"
    unfolding s' by simp
  have np: "NumPart s' = NumPart s" unfolding s' by simp
  have ln: "length (P s') = length (P s)" unfolding P' by simp
  show ?thesis using ret fr np ln un only by blast
qed

lemma bh_marked_fields:
  assumes "bh_marked ps n bhp bhp'" "m < length bhp"
  shows "bhID (bhp' ! m) = bhID (bhp ! m)" and "bhp' ! m = (bhp ! m)\<lparr>ReverseLink := ReverseLink (bhp' ! m)\<rparr>"
proof -
  from assms show e: "bhp' ! m = (bhp ! m)\<lparr>ReverseLink := ReverseLink (bhp' ! m)\<rparr>"
    by (simp add: bh_marked_def)
  show "bhID (bhp' ! m) = bhID (bhp ! m)" by (subst e) simp
qed

text \<open>On consistent links the first pass goes through, and every slot that is pointed
  to ends up with a link.\<close>

lemma bh_mark_ok:
  assumes dead: "\<forall>m<length bhp. ReverseLink (bhp ! m) = -1" and nb: "nbh \<le> length bhp"
    and ok: "\<forall>i<n. Type (ps ! i) = 5 \<longrightarrow> PI (ps ! i) < nbh \<and> bhID (bhp ! PI (ps ! i)) = ID (ps ! i)"
  shows "\<exists>bhp'. bh_mark ps nbh [0..<n] bhp = Inr bhp' \<and>
           (\<forall>i<n. Type (ps ! i) = 5 \<longrightarrow> ReverseLink (bhp' ! PI (ps ! i)) \<noteq> -1)"
  using ok
proof (induction n)
  case 0
  then show ?case by simp
next
  case (Suc n)
  then obtain b where b: "bh_mark ps nbh [0..<n] bhp = Inr b"
    and lv: "\<forall>i<n. Type (ps ! i) = 5 \<longrightarrow> ReverseLink (b ! PI (ps ! i)) \<noteq> -1"
    by auto
  have mk: "bh_marked ps n bhp b" using bh_mark_marked [OF b dead nb] by simp
  have ap: "bh_mark ps nbh [0..<Suc n] bhp = bh_mark ps nbh [n] b"
    by (simp add: bh_mark_append b)
  show ?case
  proof (cases "Type (ps ! n) = 5")
    case False
    then have "bh_mark ps nbh [0..<Suc n] bhp = Inr b" unfolding ap by simp
    then show ?thesis using lv False by (auto simp: less_Suc_eq)
  next
    case True
    let ?k = "PI (ps ! n)"
    let ?b' = "b[?k := (b ! ?k)\<lparr>ReverseLink := int n\<rparr>]"
    from Suc.prems True have k: "?k < nbh" and id: "bhID (bhp ! ?k) = ID (ps ! n)" by auto
    have kl: "?k < length bhp" using k nb by simp
    have lb: "length b = length bhp" using mk by (simp add: bh_marked_def)
    have "bhID (?b' ! ?k) = bhID (b ! ?k)" using kl lb by simp
    also have "\<dots> = bhID (bhp ! ?k)" using bh_marked_fields(1) [OF mk kl] .
    finally have id': "bhID (?b' ! ?k) = ID (ps ! n)" using id by simp
    have r: "bh_mark ps nbh [0..<Suc n] bhp = Inr ?b'"
      unfolding ap using True k id' by (simp add: Let_def)
    have "ReverseLink (?b' ! PI (ps ! i)) \<noteq> -1" if "i < Suc n" "Type (ps ! i) = 5" for i
    proof (cases "PI (ps ! i) = ?k")
      case True
      then show ?thesis using kl lb by simp
    next
      case False
      then have "i \<noteq> n" by auto
      then have "i < n" using that by simp
      then show ?thesis using lv that False by simp
    qed
    then show ?thesis using r by blast
  qed
qed

lemma bh_verify_append:
  "bh_verify ps bhp nbh (xs @ ys) j =
     (case bh_verify ps bhp nbh xs j of Inl e \<Rightarrow> Inl e | Inr j' \<Rightarrow> bh_verify ps bhp nbh ys j')"
  by (induction xs arbitrary: j) simp_all

lemma bh_verify_ok:
  assumes "\<forall>i<n. Type (ps ! i) = 5 \<longrightarrow> PI (ps ! i) < nbh \<and> bhID (bhp ! PI (ps ! i)) = ID (ps ! i)"
  shows "bh_verify ps bhp nbh [0..<n] j = Inr (j + card {i. i < n \<and> Type (ps ! i) = 5})"
  using assms
proof (induction n)
  case 0
  then show ?case by simp
next
  case (Suc n)
  have ih: "bh_verify ps bhp nbh [0..<n] j = Inr (j + card {i. i < n \<and> Type (ps ! i) = 5})"
    using Suc by simp
  have fin: "finite {i. i < n \<and> Type (ps ! i) = 5}" by simp
  show ?case
  proof (cases "Type (ps ! n) = 5")
    case False
    have "{i. i < Suc n \<and> Type (ps ! i) = 5} = {i. i < n \<and> Type (ps ! i) = 5}"
      using False by (auto simp: less_Suc_eq)
    then show ?thesis using False by (simp add: bh_verify_append ih)
  next
    case True
    have "{i. i < Suc n \<and> Type (ps ! i) = 5} = insert n {i. i < n \<and> Type (ps ! i) = 5}"
      using True by (auto simp: less_Suc_eq)
    then have "card {i. i < Suc n \<and> Type (ps ! i) = 5} = Suc (card {i. i < n \<and> Type (ps ! i) = 5})"
      using fin by simp
    moreover have "PI (ps ! n) < nbh" "bhID (bhp ! PI (ps ! n)) = ID (ps ! n)"
      using True Suc.prems by simp_all
    ultimately show ?thesis using True by (simp add: bh_verify_append ih)
  qed
qed

lemma relink_distinct:
  assumes "distinct (map (\<lambda>k. nat (ReverseLink (bhp ! k))) [0..<n])"
    and "\<forall>k<n. nat (ReverseLink (bhp ! k)) < length ps"
  shows "\<forall>k<n. bh_relink bhp n ps ! nat (ReverseLink (bhp ! k)) =
               (ps ! nat (ReverseLink (bhp ! k)))\<lparr>PI := k\<rparr>"
  using assms
proof (induction n)
  case 0
  then show ?case by simp
next
  case (Suc n)
  let ?f = "\<lambda>k. nat (ReverseLink (bhp ! k))"
  from Suc.prems(1) have d: "distinct (map ?f [0..<n])" and nin': "?f n \<notin> ?f ` {0..<n}"
    by simp_all
  have nin: "\<forall>k<n. ?f k \<noteq> ?f n"
  proof (intro allI impI notI)
    fix k assume "k < n" "?f k = ?f n"
    then have "?f n \<in> ?f ` {0..<n}" by (metis atLeastLessThan_iff imageI zero_le)
    with nin' show False by simp
  qed
  have ih: "\<forall>k<n. bh_relink bhp n ps ! ?f k = (ps ! ?f k)\<lparr>PI := k\<rparr>"
    using Suc.IH [OF d] Suc.prems(2) by simp
  have un: "bh_relink bhp n ps ! ?f n = ps ! ?f n"
    using nin by (intro relink_untouched) simp
  have ln: "?f n < length (bh_relink bhp n ps)" using Suc.prems(2) by simp
  show ?case
  proof (intro allI impI)
    fix k assume "k < Suc n"
    show "bh_relink bhp (Suc n) ps ! ?f k = (ps ! ?f k)\<lparr>PI := k\<rparr>"
    proof (cases "k = n")
      case True
      then show ?thesis using ln un by (simp add: relink_Suc)
    next
      case False
      then have kn: "k < n" using \<open>k < Suc n\<close> by simp
      then have "?f k \<noteq> ?f n" using nin by simp
      then show ?thesis using ih kn by (simp add: relink_Suc)
    qed
  qed
qed

text \<open>A sorted table in which exactly the first \<open>h\<close> of \<open>n\<close> slots are linked.\<close>

lemma filter_live_prefix:
  assumes "h \<le> length xs"
    and "\<forall>k<h. ReverseLink (xs ! k) \<noteq> -1"
    and "\<forall>k. h \<le> k \<and> k < length xs \<longrightarrow> ReverseLink (xs ! k) = -1"
  shows "filter (\<lambda>r. r \<noteq> -1) (map ReverseLink xs) = map ReverseLink (take h xs)"
proof -
  have a: "\<forall>x \<in> set (take h xs). ReverseLink x \<noteq> -1"
    using assms(1,2) by (auto simp: in_set_conv_nth)
  have b: "\<forall>x \<in> set (drop h xs). \<not> ReverseLink x \<noteq> -1"
    using assms(1,3) by (auto simp: in_set_conv_nth)
  have "filter (\<lambda>r. r \<noteq> -1) (map ReverseLink xs) =
        map ReverseLink (filter (\<lambda>x. ReverseLink x \<noteq> -1) (take h xs @ drop h xs))"
    by (simp add: filter_map comp_def)
  also have "\<dots> = map ReverseLink (filter (\<lambda>x. ReverseLink x \<noteq> -1) (take h xs) @
                      filter (\<lambda>x. ReverseLink x \<noteq> -1) (drop h xs))"
    by (simp only: filter_append)
  also have "filter (\<lambda>x. ReverseLink x \<noteq> -1) (take h xs) = take h xs"
    using a by (simp add: filter_id_conv)
  also have "filter (\<lambda>x. ReverseLink x \<noteq> -1) (drop h xs) = []"
    using b by (simp add: filter_empty_conv)
  finally show ?thesis by simp
qed

text \<open>After the first pass the links of different linked slots differ.\<close>

lemma marked_links_distinct:
  assumes mk: "bh_marked ps n bhp bhp2" and nb: "nbh \<le> length bhp"
  shows "distinct (filter (\<lambda>r. r \<noteq> -1) (map ReverseLink (take nbh bhp2)))"
proof -
  let ?h = "\<lambda>m. ReverseLink (bhp2 ! m)"
  have len2: "length bhp2 = length bhp" using mk by (simp add: bh_marked_def)
  have e: "map ReverseLink (take nbh bhp2) = map ?h [0..<nbh]"
    using nb len2 by (intro nth_equalityI) simp_all
  have inj: "inj_on ?h {m \<in> set [0..<nbh]. ?h m \<noteq> -1}"
  proof (rule inj_onI)
    fix m m' assume m: "m \<in> {m \<in> set [0..<nbh]. ?h m \<noteq> -1}"
      and m': "m' \<in> {m \<in> set [0..<nbh]. ?h m \<noteq> -1}" and eq: "?h m = ?h m'"
    from m nb have ml: "m < length bhp" and lv: "?h m \<noteq> -1" by auto
    from m' nb have ml': "m' < length bhp" and lv': "?h m' \<noteq> -1" by auto
    from mk ml lv obtain i where i: "PI (ps ! i) = m" "?h m = int i"
      unfolding bh_marked_def by blast
    from mk ml' lv' obtain i' where i': "PI (ps ! i') = m'" "?h m' = int i'"
      unfolding bh_marked_def by blast
    from i i' eq have "i = i'" by simp
    with i i' show "m = m'" by simp
  qed
  have "filter (\<lambda>r. r \<noteq> -1) (map ?h [0..<nbh]) = map ?h (filter (\<lambda>m. ?h m \<noteq> -1) [0..<nbh])"
    by (simp add: filter_map comp_def)
  moreover have "distinct (map ?h (filter (\<lambda>m. ?h m \<noteq> -1) [0..<nbh]))"
    using inj by (simp add: distinct_map)
  ultimately show ?thesis unfolding e by simp
qed


lemma sorted_links_distinct:
  assumes c: "qsort_contract bh_cmp_reverse_link qs"
    and mk: "bh_marked ps n bhp bhp2" and nb: "nbh \<le> length bhp"
  shows "distinct (map (\<lambda>k. ReverseLink ((qs (take nbh bhp2) @ drop nbh bhp2) ! k))
            [0..<bh_shrink (qs (take nbh bhp2) @ drop nbh bhp2) nbh])"
proof -
  let ?X = "take nbh bhp2"
  let ?b3 = "qs ?X @ drop nbh bhp2"
  let ?h = "bh_shrink ?b3 nbh"
  let ?Q = "\<lambda>r::int. r \<noteq> -1"
  have len2: "length bhp2 = length bhp" using mk by (simp add: bh_marked_def)
  have lq: "length (qs ?X) = nbh" using qsort_length [OF c, of ?X] nb len2 by simp
  have tk: "take nbh ?b3 = qs ?X" using lq by simp
  have hn: "?h \<le> nbh" by (rule bh_shrink_le)
  have nthq: "?b3 ! k = qs ?X ! k" if "k < nbh" for k using that lq by (simp add: nth_append)
  have "mset (qs ?X) = mset ?X" using c by (simp add: qsort_contract_def)
  then have "mset (map ReverseLink (qs ?X)) = mset (map ReverseLink ?X)"
    by (metis mset_map)
  then have "mset (filter ?Q (map ReverseLink (qs ?X))) = mset (filter ?Q (map ReverseLink ?X))"
    by (simp only: mset_filter)
  then have "distinct (filter ?Q (map ReverseLink (qs ?X))) = distinct (filter ?Q (map ReverseLink ?X))"
    by (rule mset_eq_imp_distinct_iff)
  then have d: "distinct (filter ?Q (map ReverseLink (qs ?X)))"
    using marked_links_distinct [OF mk nb] by simp
  have live: "\<forall>k<?h. ReverseLink (qs ?X ! k) \<noteq> -1"
  proof (intro allI impI)
    fix k assume k: "k < ?h"
    have "ReverseLink (?b3 ! k) \<noteq> -1"
    proof (rule shrink_sorted_live [OF _ _ k])
      show "sorted_wrt (\<lambda>a b. bh_cmp_reverse_link a b \<le> 0) (take nbh ?b3)"
        unfolding tk using c by (rule qsort_sorted)
      show "nbh \<le> length ?b3" using lq by simp
    qed
    then show "ReverseLink (qs ?X ! k) \<noteq> -1" using nthq [of k] k hn by simp
  qed
  have dead: "\<forall>k. ?h \<le> k \<and> k < length (qs ?X) \<longrightarrow> ReverseLink (qs ?X ! k) = -1"
  proof (intro allI impI)
    fix k assume k: "?h \<le> k \<and> k < length (qs ?X)"
    then have "ReverseLink (?b3 ! k) = -1" using lq by (intro bh_shrink_dead [of ?b3 nbh k]) simp_all
    then show "ReverseLink (qs ?X ! k) = -1" using nthq [of k] k lq by simp
  qed
  have "filter ?Q (map ReverseLink (qs ?X)) = map ReverseLink (take ?h (qs ?X))"
    using hn lq live dead by (intro filter_live_prefix) simp_all
  also have "\<dots> = map (\<lambda>k. ReverseLink (?b3 ! k)) [0..<?h]"
    using hn lq by (intro nth_equalityI) (simp_all add: nth_append)
  finally show ?thesis using d by simp
qed

lemma bh_gc_run:
  assumes "int (N_bh_slots s) + others0 \<noteq> 0"
    and "bh_mark (P s) (N_bh_slots s) [0..<NumPart s] (bh_reset_links (MaxPartBh s) (BhP s)) = Inr bhp2"
    and "bh_verify (bh_relink (qs (take (N_bh_slots s) bhp2) @ drop (N_bh_slots s) bhp2)
                      (bh_shrink (qs (take (N_bh_slots s) bhp2) @ drop (N_bh_slots s) bhp2) (N_bh_slots s)) (P s))
           (bh_reset_links (bh_shrink (qs (take (N_bh_slots s) bhp2) @ drop (N_bh_slots s) bhp2) (N_bh_slots s))
              (qs (take (N_bh_slots s) bhp2) @ drop (N_bh_slots s) bhp2))
           (bh_shrink (qs (take (N_bh_slots s) bhp2) @ drop (N_bh_slots s) bhp2) (N_bh_slots s))
           [0..<NumPart s] 0 =
         Inr (bh_shrink (qs (take (N_bh_slots s) bhp2) @ drop (N_bh_slots s) bhp2) (N_bh_slots s))"
  shows "domain_bh_garbage_collection qs others0 s =
     Inr (0, s\<lparr>P := bh_relink (qs (take (N_bh_slots s) bhp2) @ drop (N_bh_slots s) bhp2)
                      (bh_shrink (qs (take (N_bh_slots s) bhp2) @ drop (N_bh_slots s) bhp2) (N_bh_slots s)) (P s),
               BhP := bh_reset_links (bh_shrink (qs (take (N_bh_slots s) bhp2) @ drop (N_bh_slots s) bhp2) (N_bh_slots s))
                      (qs (take (N_bh_slots s) bhp2) @ drop (N_bh_slots s) bhp2),
               N_bh_slots := bh_shrink (qs (take (N_bh_slots s) bhp2) @ drop (N_bh_slots s) bhp2) (N_bh_slots s)\<rparr>)"
  unfolding domain_bh_garbage_collection_def Let_def
  using assms by simp

text \<open>
  C3. Let \<^verbatim>\<open>qsort\<close> keep its contract and let the links be consistent on entry
  (\<open>bh_links_ok\<close>: every live type-5 entry points to a slot in use that carries its
  identifier, and no two entries share a slot). Then the pass returns normally, and
  afterwards: every base entry \<open>i\<close> of type 5 has \<open>PI < N_bh_slots\<close> and
  \<open>BhP[P[i].PI].ID = P[i].ID\<close>; \<open>N_bh_slots\<close> is the number of type-5 base entries;
  every surviving slot has \<open>ReverseLink = -1\<close>; the surviving slots are the linked
  ones, placed first in the order of their links, that is in the order of their base
  entries (\<open>PI\<close> increases with the base index); and the slot of each entry is the slot
  it had before, with \<open>ReverseLink\<close> reset.
\<close>

theorem bh_collection_compacts:
  assumes c: "qsort_contract bh_cmp_reverse_link qs" and ok: "bh_links_ok s"
    and others: "0 \<le> others0"
  shows "\<exists>s'. domain_bh_garbage_collection qs others0 s = Inr (0, s') \<and>
     (\<forall>i<NumPart s'. Type (P s' ! i) = 5 \<longrightarrow>
          PI (P s' ! i) < N_bh_slots s' \<and> bhID (BhP s' ! PI (P s' ! i)) = ID (P s' ! i)) \<and>
     N_bh_slots s' = card {i. i < NumPart s' \<and> Type (P s' ! i) = 5} \<and>
     (\<forall>k<N_bh_slots s'. ReverseLink (BhP s' ! k) = -1) \<and>
     (\<forall>i<NumPart s'. \<forall>j<NumPart s'. Type (P s' ! i) = 5 \<and> Type (P s' ! j) = 5 \<and> i < j \<longrightarrow>
          PI (P s' ! i) < PI (P s' ! j)) \<and>
     (\<forall>i<NumPart s. Type (P s ! i) = 5 \<longrightarrow>
          BhP s' ! PI (P s' ! i) = (BhP s ! PI (P s ! i))\<lparr>ReverseLink := -1\<rparr>)"
proof -
  define ps where "ps = P s"
  define np where "np = NumPart s"
  define N where "N = N_bh_slots s"
  define bhp0 where "bhp0 = BhP s"
  define T where "T = {i. i < np \<and> Type (ps ! i) = 5}"
  define f where "f = (\<lambda>i. PI (ps ! i))"
  from ok have npl: "np \<le> length ps" and Nl: "N \<le> length bhp0" and mx: "MaxPartBh s = length bhp0"
    and pre: "\<And>i. i \<in> T \<Longrightarrow> f i < N \<and> bhID (bhp0 ! f i) = ID (ps ! i)"
    and inj: "\<And>i j. i \<in> T \<Longrightarrow> j \<in> T \<Longrightarrow> f i = f j \<Longrightarrow> i = j"
    unfolding bh_links_ok_def ps_def np_def N_def bhp0_def T_def f_def by auto
  show ?thesis
  proof (cases "int N + others0 = 0")
    case True
    then have N0: "N = 0" using others by simp
    then have empty: "T = {}" using pre by fastforce
    have r: "domain_bh_garbage_collection qs others0 s = Inr (0, s)"
      using True by (simp add: domain_bh_garbage_collection_def N_def)
    have no5: "\<And>i. i < NumPart s \<Longrightarrow> Type (P s ! i) \<noteq> 5"
      using empty unfolding T_def np_def ps_def by blast
    have "{i. i < NumPart s \<and> Type (P s ! i) = 5} = {}" using no5 by blast
    then show ?thesis
      using r no5 N0 unfolding N_def by (intro exI [of _ s]) simp
  next
    case False
    define bhp1 where "bhp1 = bh_reset_links (MaxPartBh s) bhp0"
    have l1: "length bhp1 = length bhp0" by (simp add: bhp1_def)
    have dead1: "\<forall>m<length bhp1. ReverseLink (bhp1 ! m) = -1"
      unfolding bhp1_def mx by (rule reset_all_dead)
    have b1: "bhp1 ! m = (bhp0 ! m)\<lparr>ReverseLink := -1\<rparr>" if "m < length bhp0" for m
      unfolding bhp1_def mx using that by (simp add: reset_links_nth)
    have N1: "N \<le> length bhp1" using Nl l1 by simp
    have ok1: "\<forall>i<np. Type (ps ! i) = 5 \<longrightarrow> PI (ps ! i) < N \<and> bhID (bhp1 ! PI (ps ! i)) = ID (ps ! i)"
    proof (intro allI impI)
      fix i assume "i < np" "Type (ps ! i) = 5"
      then have i: "i \<in> T" by (simp add: T_def)
      from pre [OF i] have "f i < length bhp0" using Nl by simp
      from b1 [OF this] pre [OF i]
      show "PI (ps ! i) < N \<and> bhID (bhp1 ! PI (ps ! i)) = ID (ps ! i)" by (simp add: f_def)
    qed
    from bh_mark_ok [OF dead1 N1 ok1] obtain bhp2 where
      mark: "bh_mark ps N [0..<np] bhp1 = Inr bhp2"
      and lv2: "\<forall>i<np. Type (ps ! i) = 5 \<longrightarrow> ReverseLink (bhp2 ! PI (ps ! i)) \<noteq> -1"
      by blast
    have mk: "bh_marked ps np bhp1 bhp2" using bh_mark_marked [OF mark dead1 N1] by simp
    have l2: "length bhp2 = length bhp0" using mk l1 by (simp add: bh_marked_def)
    have link2: "ReverseLink (bhp2 ! f i) = int i" if i: "i \<in> T" for i
    proof -
      have fl: "f i < length bhp1" using pre [OF i] N1 by simp
      from mk fl have "ReverseLink (bhp2 ! f i) = -1 \<or>
         (\<exists>i'<np. Type (ps ! i') = 5 \<and> PI (ps ! i') = f i \<and> ReverseLink (bhp2 ! f i) = int i')"
        unfolding bh_marked_def by blast
      moreover have "ReverseLink (bhp2 ! f i) \<noteq> -1" using lv2 i by (simp add: T_def f_def)
      ultimately obtain i' where i': "i' < np" "Type (ps ! i') = 5" "PI (ps ! i') = f i"
        "ReverseLink (bhp2 ! f i) = int i'" by blast
      then have "i' \<in> T" "f i' = f i" by (simp_all add: T_def f_def)
      with inj [OF _ i] have "i' = i" by simp
      with i' show ?thesis by simp
    qed
    define bhp3 where "bhp3 = qs (take N bhp2) @ drop N bhp2"
    define nbh where "nbh = bh_shrink bhp3 N"
    define g where "g = (\<lambda>k. nat (ReverseLink (bhp3 ! k)))"
    have lq: "length (qs (take N bhp2)) = N" using qsort_length [OF c, of "take N bhp2"] Nl l2 by simp
    have l3: "length bhp3 = length bhp0" using lq l2 Nl by (simp add: bhp3_def)
    have hN: "nbh \<le> N" unfolding nbh_def by (rule bh_shrink_le)
    have A: "\<exists>i\<in>T. ReverseLink (bhp3 ! k) = int i \<and> bhp3 ! k = bhp2 ! f i" if "k < nbh" for k
      using bh_live_links [OF c mk N1, of k] that unfolding nbh_def bhp3_def T_def f_def by blast
    have gT: "g k \<in> T" and gl: "ReverseLink (bhp3 ! k) = int (g k)"
      and gs: "bhp3 ! k = bhp2 ! f (g k)" if "k < nbh" for k
      using A [OF that] unfolding g_def by auto
    have B: "\<exists>k<nbh. g k = i" if i: "i \<in> T" for i
    proof -
      have fN: "f i < N" using pre [OF i] by simp
      then have "bhp2 ! f i \<in> set (take N bhp2)"
        using l2 Nl by (auto simp: in_set_conv_nth intro!: exI [of _ "f i"])
      then have "bhp2 ! f i \<in> set (qs (take N bhp2))" using qsort_set [OF c] by simp
      then obtain k where k: "k < N" "qs (take N bhp2) ! k = bhp2 ! f i"
        using lq by (auto simp: in_set_conv_nth)
      then have e: "bhp3 ! k = bhp2 ! f i" using lq by (simp add: bhp3_def nth_append)
      then have r: "ReverseLink (bhp3 ! k) = int i" using link2 [OF i] by simp
      have "k < nbh"
      proof (rule ccontr)
        assume "\<not> k < nbh"
        then have "ReverseLink (bhp3 ! k) = -1"
          unfolding nbh_def using k(1) by (intro bh_shrink_dead) simp_all
        with r show False by simp
      qed
      moreover have "g k = i" using r by (simp add: g_def)
      ultimately show ?thesis by blast
    qed
    have dist: "distinct (map g [0..<nbh])"
    proof -
      have "distinct (map (\<lambda>k. ReverseLink (bhp3 ! k)) [0..<nbh])"
        unfolding bhp3_def nbh_def using c mk N1 by (rule sorted_links_distinct)
      moreover have "map (\<lambda>k. ReverseLink (bhp3 ! k)) [0..<nbh] = map int (map g [0..<nbh])"
        using gl by simp
      ultimately show ?thesis by (metis distinct_map)
    qed
    have setg: "set (map g [0..<nbh]) = T"
    proof (intro set_eqI iffI)
      fix x assume "x \<in> set (map g [0..<nbh])"
      then show "x \<in> T" using gT by auto
    next
      fix x assume "x \<in> T"
      from B [OF this] obtain k where "k < nbh" "g k = x" by blast
      then have "x \<in> g ` {0..<nbh}" by (metis atLeastLessThan_iff imageI zero_le)
      then show "x \<in> set (map g [0..<nbh])" by simp
    qed
    have cardT: "card T = nbh"
      using distinct_card [OF dist] setg by simp
    define ps1 where "ps1 = bh_relink bhp3 nbh ps"
    define bhp4 where "bhp4 = bh_reset_links nbh bhp3"
    have gl': "\<forall>k<nbh. nat (ReverseLink (bhp3 ! k)) < length ps"
      using gT npl unfolding g_def T_def by fastforce
    have rel: "ps1 ! g k = (ps ! g k)\<lparr>PI := k\<rparr>" if "k < nbh" for k
      using relink_distinct [OF dist [unfolded g_def] gl'] that unfolding ps1_def g_def by blast
    have same: "Type (ps1 ! i) = Type (ps ! i) \<and> ID (ps1 ! i) = ID (ps ! i)" if "i < length ps" for i
    proof -
      have "(ps1 ! i)\<lparr>PI := PI (ps ! i)\<rparr> = ps ! i"
        unfolding ps1_def using that by (rule relink_only_PI)
      from arg_cong [OF this, of Type] arg_cong [OF this, of ID] show ?thesis by simp
    qed
    have b4: "bhp4 ! k = (bhp3 ! k)\<lparr>ReverseLink := -1\<rparr>" if "k < nbh" for k
      unfolding bhp4_def using that hN Nl l3 by (simp add: reset_links_nth)
    have slot: "bhp4 ! k = (bhp0 ! f (g k))\<lparr>ReverseLink := -1\<rparr>" if k: "k < nbh" for k
    proof -
      have fl: "f (g k) < length bhp1" using pre [OF gT [OF k]] N1 by simp
      have "bhp2 ! f (g k) = (bhp1 ! f (g k))\<lparr>ReverseLink := ReverseLink (bhp2 ! f (g k))\<rparr>"
        using bh_marked_fields(2) [OF mk fl] .
      from arg_cong [OF this, of "\<lambda>b. b\<lparr>ReverseLink := -1\<rparr>"]
      have "(bhp2 ! f (g k))\<lparr>ReverseLink := -1\<rparr> = (bhp1 ! f (g k))\<lparr>ReverseLink := -1\<rparr>"
        by simp
      also have "\<dots> = (bhp0 ! f (g k))\<lparr>ReverseLink := -1\<rparr>"
        using b1 [of "f (g k)"] fl l1 by simp
      finally show ?thesis using b4 [OF k] gs [OF k] by simp
    qed
    have T1: "{i. i < np \<and> Type (ps1 ! i) = 5} = T"
      using same npl unfolding T_def by force
    have ver: "\<forall>i<np. Type (ps1 ! i) = 5 \<longrightarrow>
        PI (ps1 ! i) < nbh \<and> bhID (bhp4 ! PI (ps1 ! i)) = ID (ps1 ! i)"
    proof (intro allI impI)
      fix i assume i: "i < np" "Type (ps1 ! i) = 5"
      then have iT: "i \<in> T" using T1 by blast
      from B [OF iT] obtain k where k: "k < nbh" "g k = i" by blast
      have pi: "PI (ps1 ! i) = k" using rel [OF k(1)] k(2) by simp
      have "bhID (bhp4 ! k) = bhID (bhp0 ! f i)" using slot [OF k(1)] k(2) by simp
      also have "\<dots> = ID (ps ! i)" using pre [OF iT] by simp
      also have "\<dots> = ID (ps1 ! i)" using same [of i] i(1) npl by simp
      finally show "PI (ps1 ! i) < nbh \<and> bhID (bhp4 ! PI (ps1 ! i)) = ID (ps1 ! i)"
        using pi k(1) by simp
    qed
    have verify: "bh_verify ps1 bhp4 nbh [0..<np] 0 = Inr nbh"
      using bh_verify_ok [OF ver, of 0] T1 cardT by simp
    define s' where "s' = s\<lparr>P := ps1, BhP := bhp4, N_bh_slots := nbh\<rparr>"
    have run: "domain_bh_garbage_collection qs others0 s = Inr (0, s')"
      unfolding s'_def ps1_def bhp4_def nbh_def bhp3_def ps_def N_def
      by (rule bh_gc_run [where qs = qs, OF False [unfolded N_def]
            mark [unfolded bhp1_def ps_def np_def N_def bhp0_def]
            verify [unfolded ps1_def bhp4_def nbh_def bhp3_def ps_def np_def N_def]])
    have sel: "P s' = ps1" "BhP s' = bhp4" "N_bh_slots s' = nbh" "NumPart s' = np"
      by (simp_all add: s'_def np_def)
    have p1: "\<forall>i<NumPart s'. Type (P s' ! i) = 5 \<longrightarrow>
          PI (P s' ! i) < N_bh_slots s' \<and> bhID (BhP s' ! PI (P s' ! i)) = ID (P s' ! i)"
      unfolding sel using ver .
    have p2: "N_bh_slots s' = card {i. i < NumPart s' \<and> Type (P s' ! i) = 5}"
      unfolding sel T1 using cardT by simp
    have p3: "\<forall>k<N_bh_slots s'. ReverseLink (BhP s' ! k) = -1"
      unfolding sel using b4 by simp
    have p4: "\<forall>i<NumPart s'. \<forall>j<NumPart s'. Type (P s' ! i) = 5 \<and> Type (P s' ! j) = 5 \<and> i < j \<longrightarrow>
          PI (P s' ! i) < PI (P s' ! j)"
      unfolding sel
    proof (intro allI impI)
      fix i j assume i: "i < np" and j: "j < np"
        and h: "Type (ps1 ! i) = 5 \<and> Type (ps1 ! j) = 5 \<and> i < j"
      then have iT: "i \<in> T" and jT: "j \<in> T" using T1 by blast+
      from B [OF iT] obtain k where k: "k < nbh" "g k = i" by blast
      from B [OF jT] obtain k' where k': "k' < nbh" "g k' = j" by blast
      have pi: "PI (ps1 ! i) = k" using rel [OF k(1)] k(2) by simp
      have pj: "PI (ps1 ! j) = k'" using rel [OF k'(1)] k'(2) by simp
      have "k < k'"
      proof (rule ccontr)
        assume "\<not> k < k'"
        then consider "k = k'" | "k' < k" by linarith
        then show False
        proof cases
          case 1
          then show ?thesis using k k' h by simp
        next
          case 2
          have srt: "sorted_wrt (\<lambda>a b. bh_cmp_reverse_link a b \<le> 0) (qs (take N bhp2))"
            using c by (rule qsort_sorted)
          have kl: "k < length (qs (take N bhp2))" using k(1) hN lq by simp
          have e: "qs (take N bhp2) ! k = bhp3 ! k" "qs (take N bhp2) ! k' = bhp3 ! k'"
            using k(1) k'(1) hN lq by (simp_all add: bhp3_def nth_append)
          have "ReverseLink (qs (take N bhp2) ! k) \<noteq> -1" unfolding e using gl [OF k(1)] by simp
          from sorted_live [OF srt kl this 2]
          have "ReverseLink (bhp3 ! k') \<le> ReverseLink (bhp3 ! k)" unfolding e by simp
          then have "j \<le> i" using gl [OF k(1)] gl [OF k'(1)] k k' by simp
          then show ?thesis using h by simp
        qed
      qed
      then show "PI (ps1 ! i) < PI (ps1 ! j)" using pi pj by simp
    qed
    have p5: "\<forall>i<NumPart s. Type (P s ! i) = 5 \<longrightarrow>
          BhP s' ! PI (P s' ! i) = (BhP s ! PI (P s ! i))\<lparr>ReverseLink := -1\<rparr>"
      unfolding sel
    proof (intro allI impI)
      fix i assume "i < NumPart s" "Type (P s ! i) = 5"
      then have iT: "i \<in> T" by (simp add: T_def np_def ps_def)
      from B [OF iT] obtain k where k: "k < nbh" "g k = i" by blast
      have pi: "PI (ps1 ! i) = k" using rel [OF k(1)] k(2) by simp
      show "bhp4 ! PI (ps1 ! i) = (BhP s ! PI (P s ! i))\<lparr>ReverseLink := -1\<rparr>"
        unfolding pi using slot [OF k(1)] k(2) by (simp add: f_def bhp0_def ps_def)
    qed
    show ?thesis
      using run p1 p2 p3 p4 p5 by (intro exI [of _ s']) blast
  qed
qed

lemma cmp_total: "bh_cmp_reverse_link a b \<le> 0 \<or> bh_cmp_reverse_link b a \<le> 0"
  by (auto simp: bh_cmp_reverse_link_def)

lemma cmp_trans:
  "bh_cmp_reverse_link a b \<le> 0 \<Longrightarrow> bh_cmp_reverse_link b c \<le> 0 \<Longrightarrow> bh_cmp_reverse_link a c \<le> 0"
  by (auto simp: bh_cmp_reverse_link_def split: if_splits)

lemma ex_insert_mset: "mset (ex_insert b xs) = add_mset b (mset xs)"
  by (induction xs) simp_all

lemma ex_insert_sorted:
  "sorted_wrt (\<lambda>a b. bh_cmp_reverse_link a b \<le> 0) xs \<Longrightarrow>
   sorted_wrt (\<lambda>a b. bh_cmp_reverse_link a b \<le> 0) (ex_insert b xs)"
proof (induction xs)
  case Nil
  then show ?case by simp
next
  case (Cons c cs)
  have s: "set (ex_insert b cs) = insert b (set cs)"
    using ex_insert_mset [of b cs] by (metis set_mset_add_mset_insert set_mset_mset)
  show ?case
  proof (cases "bh_cmp_reverse_link b c \<le> 0")
    case True
    then show ?thesis using Cons.prems cmp_trans by auto
  next
    case False
    then have "bh_cmp_reverse_link c b \<le> 0" using cmp_total by blast
    then show ?thesis using Cons False by (auto simp: s)
  qed
qed

lemma ex_qsort_bh_contract: "qsort_contract bh_cmp_reverse_link ex_qsort_bh"
  unfolding qsort_contract_def
proof (intro allI conjI)
  fix xs
  show "mset (ex_qsort_bh xs) = mset xs" by (induction xs) (simp_all add: ex_insert_mset)
  show "sorted_wrt (\<lambda>a b. bh_cmp_reverse_link a b \<le> 0) (ex_qsort_bh xs)"
    by (induction xs) (simp_all add: ex_insert_sorted)
qed

lemma ex_bh_links_ok: "bh_links_ok ex_bh_state"
  by (simp add: bh_links_ok_def ex_bh_state_def ex_bh1_def ex_bh2_def ex_dm_def
      less_Suc_eq numeral_eq_Suc nth_Cons')

lemma ex_bh_run:
  "(case domain_bh_garbage_collection ex_qsort_bh 0 ex_bh_state of
      Inl e \<Rightarrow> None | Inr (r, s) \<Rightarrow> Some (r, map PI (P s), BhP s, N_bh_slots s)) =
   Some (0, [0, 0, 1, 0],
     [\<lparr>bhID = 11, ReverseLink = -1, Accretion = 3\<rparr>,
      \<lparr>bhID = 12, ReverseLink = -1, Accretion = 1\<rparr>,
      \<lparr>bhID = 99, ReverseLink = -1, Accretion = 2\<rparr>,
      \<lparr>bhID = 0, ReverseLink = -1, Accretion = 0\<rparr>], 2)"
  by code_simp

theorem bh_collection_compacts_witness:
  "qsort_contract bh_cmp_reverse_link ex_qsort_bh \<and> bh_links_ok ex_bh_state \<and> (0::int) \<le> 0 \<and>
   (\<exists>s'. domain_bh_garbage_collection ex_qsort_bh 0 ex_bh_state = Inr (0, s') \<and>
      N_bh_slots s' = 2 \<and> map PI (P s') = [0, 0, 1, 0] \<and>
      map bhID (take 2 (BhP s')) = [11, 12] \<and>
      (\<forall>i<NumPart s'. Type (P s' ! i) = 5 \<longrightarrow>
          PI (P s' ! i) < N_bh_slots s' \<and> bhID (BhP s' ! PI (P s' ! i)) = ID (P s' ! i)))"
proof -
  have h3: "(0::int) \<le> 0" by simp
  from bh_collection_compacts [OF ex_qsort_bh_contract ex_bh_links_ok h3]
  obtain s' where r: "domain_bh_garbage_collection ex_qsort_bh 0 ex_bh_state = Inr (0, s')"
    and p: "\<forall>i<NumPart s'. Type (P s' ! i) = 5 \<longrightarrow>
          PI (P s' ! i) < N_bh_slots s' \<and> bhID (BhP s' ! PI (P s' ! i)) = ID (P s' ! i)"
    by blast
  from ex_bh_run have "N_bh_slots s' = 2 \<and> map PI (P s') = [0, 0, 1, 0] \<and>
      map bhID (take 2 (BhP s')) = [11, 12]"
    unfolding r by simp
  then have "\<exists>s'. domain_bh_garbage_collection ex_qsort_bh 0 ex_bh_state = Inr (0, s') \<and>
      N_bh_slots s' = 2 \<and> map PI (P s') = [0, 0, 1, 0] \<and>
      map bhID (take 2 (BhP s')) = [11, 12] \<and>
      (\<forall>i<NumPart s'. Type (P s' ! i) = 5 \<longrightarrow>
          PI (P s' ! i) < N_bh_slots s' \<and> bhID (BhP s' ! PI (P s' ! i)) = ID (P s' ! i))"
    using r p by (intro exI [of _ s']) simp
  then show ?thesis using ex_qsort_bh_contract ex_bh_links_ok h3 by simp
qed

theorem bh_collection_frame_witness:
  "qsort_contract bh_cmp_reverse_link ex_qsort_bh \<and>
   N_bh_slots ex_bh_state \<le> length (BhP ex_bh_state) \<and>
   MaxPartBh ex_bh_state = length (BhP ex_bh_state) \<and>
   (\<exists>s'. domain_bh_garbage_collection ex_qsort_bh 0 ex_bh_state = Inr (0, s') \<and>
      NumPart s' = NumPart ex_bh_state \<and> map PI (P s') = [0, 0, 1, 0] \<and>
      P s' ! 1 = P ex_bh_state ! 1 \<and>
      (P s' ! 0)\<lparr>PI := PI (P ex_bh_state ! 0)\<rparr> = P ex_bh_state ! 0)"
proof -
  have h2: "N_bh_slots ex_bh_state \<le> length (BhP ex_bh_state)"
    and h3: "MaxPartBh ex_bh_state = length (BhP ex_bh_state)"
    by (simp_all add: ex_bh_state_def)
  have "\<exists>r s'. domain_bh_garbage_collection ex_qsort_bh 0 ex_bh_state = Inr (r, s')"
  proof (cases "domain_bh_garbage_collection ex_qsort_bh 0 ex_bh_state")
    case (Inl e)
    with ex_bh_run show ?thesis by simp
  next
    case (Inr p)
    then show ?thesis by (cases p) simp
  qed
  then obtain r s' where r: "domain_bh_garbage_collection ex_qsort_bh 0 ex_bh_state = Inr (r, s')"
    by blast
  have l: "(1::nat) < length (P ex_bh_state)" "(0::nat) < length (P ex_bh_state)"
    and t: "Type (P ex_bh_state ! 1) \<noteq> 5"
    by (simp_all add: ex_bh_state_def ex_dm_def)
  note fr = bh_collection_frame [OF ex_qsort_bh_contract h2 h3 r]
  from fr have r0: "r = 0" and np: "NumPart s' = NumPart ex_bh_state" by simp_all
  from fr have a: "\<forall>i<length (P ex_bh_state).
      (P s' ! i)\<lparr>PI := PI (P ex_bh_state ! i)\<rparr> = P ex_bh_state ! i" by simp
  from fr have b: "\<forall>i<length (P ex_bh_state).
      \<not> (i < NumPart ex_bh_state \<and> Type (P ex_bh_state ! i) = 5) \<longrightarrow>
      P s' ! i = P ex_bh_state ! i" by simp
  have e1: "P s' ! 1 = P ex_bh_state ! 1" using b l(1) t by blast
  have e0: "(P s' ! 0)\<lparr>PI := PI (P ex_bh_state ! 0)\<rparr> = P ex_bh_state ! 0"
    using a l(2) by blast
  from ex_bh_run have m: "map PI (P s') = [0, 0, 1, 0]" unfolding r by simp
  have "\<exists>s'. domain_bh_garbage_collection ex_qsort_bh 0 ex_bh_state = Inr (0, s') \<and>
      NumPart s' = NumPart ex_bh_state \<and> map PI (P s') = [0, 0, 1, 0] \<and>
      P s' ! 1 = P ex_bh_state ! 1 \<and>
      (P s' ! 0)\<lparr>PI := PI (P ex_bh_state ! 0)\<rparr> = P ex_bh_state ! 0"
    using r r0 np m e1 e0 by (intro exI [of _ s']) simp
  then show ?thesis using ex_qsort_bh_contract h2 h3 by simp
qed


section \<open>Properties of the local refinement\<close>

declare advance_daughter.simps [simp del]

declare distribute_particles.simps [simp del]



















text \<open>
  The root has no parent (\<^verbatim>\<open>Parent = -1\<close>), so the call that
  \<^verbatim>\<open>domain_determineTopTree\<close> makes on the single root returns 0 at once.
\<close>

lemma single_root_unrefined:
  "domain_check_for_local_refine (Suc d) tb ps mp maxtop 0 (root_node pc np gc # rest, 1) =
     Some (0, root_node pc np gc # rest, 1)"
  by (simp add: root_node_def Let_def)






section \<open>Properties of the safety loop\<close>

























end
